theory Spec2Isabelle
  imports Main "HOL-Library.Char_ord" "HOL-Library.List_Lexorder"
begin

section \<open>Python values, objects and the heap\<close>

text \<open>
  The module library of \<^verbatim>\<open>flax/nnx/nnx/module.py\<close> works on Python objects that are
  mutated in place and may be shared, so the embedding keeps an explicit heap.  An
  address is the identity \<^verbatim>\<open>id(obj)\<close> of an object; the heap is the list of all objects,
  an address being an index into it.  A reference to an object is the value
  \<open>PRef a\<close>; \<open>PMethod name\<close> is a method bound to an object.

  Two kinds of object live in the heap: a \<open>Variable\<close> (its exact type, given by the
  type's name, and its \<^verbatim>\<open>raw_value\<close>) and an \<open>Object\<close>, a graph node of the library.
  An \<open>Object\<close> has its class name, whether the class derives from \<^verbatim>\<open>Module\<close>, the
  attributes that its class and the bases of the class other than \<^verbatim>\<open>Module\<close> provide
  (methods and class-level values such as defaults), and its instance dictionary
  \<^verbatim>\<open>vars(obj)\<close> in insertion order.
\<close>

type_synonym addr = nat

datatype val =
    PNone
  | PBool bool
  | PInt int
  | PStr string
  | PTuple "val list"
  | PRef addr
  | PMethod string

datatype cell =
    Variable (var_type: string) (raw_value: val)
  | Object (cls: string) (is_module_class: bool) (class_attrs: "(string \<times> val) list")
      (attrs: "(string \<times> val) list")

type_synonym heap = "cell list"

type_synonym path = "string list"

datatype error = ValueError string | TypeError string

definition lookup :: "heap \<Rightarrow> addr \<Rightarrow> cell option" where
  "lookup h a = (if a < length h then Some (h ! a) else None)"

text \<open>\<^verbatim>\<open>vars(obj)\<close>: the instance dictionary of an object; empty for anything else.\<close>

definition vars :: "heap \<Rightarrow> addr \<Rightarrow> (string \<times> val) list" where
  "vars h a = (case lookup h a of Some (Object c m cas kvs) \<Rightarrow> kvs | _ \<Rightarrow> [])"

text \<open>
  The methods that the class \<^verbatim>\<open>Module\<close> of \<^verbatim>\<open>module.py\<close> defines: every object of a
  class that derives from \<^verbatim>\<open>Module\<close> has them as attributes.
\<close>

definition Module_methods :: "string list" where
  "Module_methods =
     [''sow'', ''iter_modules'', ''iter_children'', ''set_attributes'', ''train'', ''eval'',
      ''__init_subclass__'', ''__treescope_repr__'']"

text \<open>
  What the class of an object provides under a name: the attributes of the class (which
  come first, so a class can override a method of \<^verbatim>\<open>Module\<close>), then the methods of
  \<^verbatim>\<open>Module\<close> when the class derives from it.
\<close>

definition class_getattr :: "cell \<Rightarrow> string \<Rightarrow> val option" where
  "class_getattr c name =
     (case c of
        Object cl m cas kvs \<Rightarrow>
          (case map_of cas name of
             Some v \<Rightarrow> Some v
           | None \<Rightarrow> if m \<and> name \<in> set Module_methods then Some (PMethod name) else None)
      | Variable t r \<Rightarrow> None)"

text \<open>
  \<^verbatim>\<open>getattr(obj, name)\<close> on an object with attributes: the instance dictionary first,
  then the class.  \<open>None\<close> stands for \<^verbatim>\<open>AttributeError\<close>; \<^verbatim>\<open>hasattr(obj, name)\<close> is
  true when \<^verbatim>\<open>getattr\<close> finds a value.  Properties and the other data descriptors of
  Python, which a class can use to intercept reads and assignments, are not modelled.
\<close>

definition object_getattr :: "cell \<Rightarrow> string \<Rightarrow> val option" where
  "object_getattr c name =
     (case c of
        Object cl m cas kvs \<Rightarrow>
          (case map_of kvs name of
             Some v \<Rightarrow> Some v
           | None \<Rightarrow> class_getattr c name)
      | Variable t r \<Rightarrow> None)"

definition getattr :: "heap \<Rightarrow> addr \<Rightarrow> string \<Rightarrow> val option" where
  "getattr h a name = (case lookup h a of Some c \<Rightarrow> object_getattr c name | None \<Rightarrow> None)"

definition hasattr :: "heap \<Rightarrow> addr \<Rightarrow> string \<Rightarrow> bool" where
  "hasattr h a name = (getattr h a name \<noteq> None)"

text \<open>
  Assignment into a Python dictionary: an existing key keeps its position, a new key
  goes to the end.
\<close>

fun dict_set :: "('k \<times> 'v) list \<Rightarrow> 'k \<Rightarrow> 'v \<Rightarrow> ('k \<times> 'v) list" where
  "dict_set [] k v = [(k, v)]"
| "dict_set ((k', v') # kvs) k v =
     (if k' = k then (k, v) # kvs else (k', v') # dict_set kvs k v)"

text \<open>
  \<^verbatim>\<open>setattr(obj, name, v)\<close> stores the value in the instance dictionary, also when the
  name was found through the class before.
\<close>

definition setattr :: "heap \<Rightarrow> addr \<Rightarrow> string \<Rightarrow> val \<Rightarrow> heap" where
  "setattr h a name v =
     (case lookup h a of
        Some (Object c m cas kvs) \<Rightarrow> h[a := Object c m cas (dict_set kvs name v)]
      | _ \<Rightarrow> h)"

text \<open>\<^verbatim>\<open>isinstance(value, Module)\<close> and \<^verbatim>\<open>isinstance(value, Variable)\<close>.\<close>

definition is_Module :: "heap \<Rightarrow> val \<Rightarrow> bool" where
  "is_Module h v =
     (case v of
        PRef a \<Rightarrow> (case lookup h a of Some (Object c m cas kvs) \<Rightarrow> m | _ \<Rightarrow> False)
      | _ \<Rightarrow> False)"

definition is_Variable :: "heap \<Rightarrow> val \<Rightarrow> bool" where
  "is_Variable h v =
     (case v of
        PRef a \<Rightarrow> (case lookup h a of Some (Variable t r) \<Rightarrow> True | _ \<Rightarrow> False)
      | _ \<Rightarrow> False)"

text \<open>\<^verbatim>\<open>type(value).__name__\<close>.\<close>

definition type_name :: "heap \<Rightarrow> val \<Rightarrow> string" where
  "type_name h v =
     (case v of
        PNone \<Rightarrow> ''NoneType''
      | PBool b \<Rightarrow> ''bool''
      | PInt i \<Rightarrow> ''int''
      | PStr s \<Rightarrow> ''str''
      | PTuple xs \<Rightarrow> ''tuple''
      | PMethod n \<Rightarrow> ''method''
      | PRef a \<Rightarrow>
          (case lookup h a of
             Some (Variable t r) \<Rightarrow> t
           | Some (Object c m cas kvs) \<Rightarrow> c
           | None \<Rightarrow> ''object''))"

section \<open>\<^verbatim>\<open>first_from\<close>\<close>

text \<open>
  \<^verbatim>\<open>
  def first_from(*args, error_msg):
    for arg in args:
      if arg is not None:
        return arg
    raise ValueError(error_msg)
  \<close>
  An argument is \<open>None\<close> (Python's \<^verbatim>\<open>None\<close>) or \<open>Some x\<close> (any other value).
\<close>

fun first_from :: "'a option list \<Rightarrow> string \<Rightarrow> error + 'a" where
  "first_from [] error_msg = Inl (ValueError error_msg)"
| "first_from (arg # args) error_msg =
     (case arg of
        Some x \<Rightarrow> Inr x
      | None \<Rightarrow> first_from args error_msg)"

section \<open>\<^verbatim>\<open>Module.sow\<close>\<close>

text \<open>
  \<^verbatim>\<open>tuple_reduce = lambda xs, x: xs + (x,)\<close> and \<^verbatim>\<open>tuple_init = lambda: ()\<close>.
  Adding a tuple to a value that is not a tuple raises \<^verbatim>\<open>TypeError\<close>.
\<close>

definition tuple_reduce :: "val \<Rightarrow> val \<Rightarrow> error + val" where
  "tuple_reduce xs x =
     (case xs of
        PTuple ys \<Rightarrow> Inr (PTuple (ys @ [x]))
      | _ \<Rightarrow> Inl (TypeError ''unsupported operand type(s) for +''))"

definition tuple_init :: "unit \<Rightarrow> val" where
  "tuple_init u = PTuple []"

text \<open>
  \<^verbatim>\<open>variable_type(reduced_value)\<close>: a new \<open>Variable\<close> object of that type, at a fresh
  address.
\<close>

definition new_Variable :: "heap \<Rightarrow> string \<Rightarrow> val \<Rightarrow> val \<times> heap" where
  "new_Variable h variable_type v = (PRef (length h), h @ [Variable variable_type v])"

text \<open>\<^verbatim>\<open>variable.raw_value = v\<close>.\<close>

definition set_raw_value :: "heap \<Rightarrow> addr \<Rightarrow> val \<Rightarrow> heap" where
  "set_raw_value h a v =
     (case lookup h a of
        Some (Variable t r) \<Rightarrow> h[a := Variable t v]
      | _ \<Rightarrow> h)"

definition quoted :: "string \<Rightarrow> string" where
  "quoted s = [CHR 0x27] @ s @ [CHR 0x27]"

text \<open>
  \<^verbatim>\<open>
  def sow(self, variable_type, name, value, reduce_fn=tuple_reduce, init_fn=tuple_init):
    if hasattr(self, name):
      variable = getattr(self, name)
      if not isinstance(variable, variableslib.Variable):
        raise ValueError(...)
      elif type(variable) != variable_type:
        raise ValueError(...)
      variable.raw_value = reduce_fn(variable.raw_value, value)
    else:
      reduced_value = reduce_fn(init_fn(), value)
      setattr(self, name, variable_type(reduced_value))
  \<close>
  The result is the exception raised, if any, and the heap the call leaves behind.
  \<open>getattr\<close> answers \<open>None\<close> exactly when \<^verbatim>\<open>hasattr\<close> is false, so the outer case is
  the source's \<^verbatim>\<open>if hasattr(self, name)\<close>; \<open>as_Variable\<close> is the
  \<^verbatim>\<open>isinstance(variable, Variable)\<close> test together with the reads of
  \<^verbatim>\<open>type(variable)\<close> and \<^verbatim>\<open>variable.raw_value\<close>.
\<close>

definition as_Variable :: "heap \<Rightarrow> val \<Rightarrow> (addr \<times> string \<times> val) option" where
  "as_Variable h v =
     (case v of
        PRef a \<Rightarrow> (case lookup h a of Some (Variable t r) \<Rightarrow> Some (a, t, r) | _ \<Rightarrow> None)
      | _ \<Rightarrow> None)"

definition sow ::
  "heap \<Rightarrow> addr \<Rightarrow> string \<Rightarrow> string \<Rightarrow> val \<Rightarrow> (val \<Rightarrow> val \<Rightarrow> error + val) \<Rightarrow> (unit \<Rightarrow> val)
     \<Rightarrow> error option \<times> heap" where
  "sow h self variable_type name value reduce_fn init_fn =
     (case getattr h self name of
        Some variable \<Rightarrow>
          (case as_Variable h variable of
             None \<Rightarrow>
               (Some (ValueError (''Expected '' @ quoted name @ '' to be a Variable, got ''
                  @ type_name h variable)), h)
           | Some (a, t, r) \<Rightarrow>
               if t \<noteq> variable_type then
                 (Some (ValueError (''Expected '' @ quoted name @ '' to be of type ''
                    @ quoted variable_type @ '', got '' @ quoted t)), h)
               else
                 (case reduce_fn r value of
                    Inl e \<Rightarrow> (Some e, h)
                  | Inr r' \<Rightarrow> (None, set_raw_value h a r')))
      | None \<Rightarrow>
          (case reduce_fn (init_fn ()) value of
             Inl e \<Rightarrow> (Some e, h)
           | Inr reduced_value \<Rightarrow>
               (case new_Variable h variable_type reduced_value of
                  (v, h') \<Rightarrow> (None, setattr h' self name v))))"

text \<open>Calling \<^verbatim>\<open>sow\<close> with the default functions once for each value, in order.\<close>

fun sow_all :: "heap \<Rightarrow> addr \<Rightarrow> string \<Rightarrow> string \<Rightarrow> val list \<Rightarrow> error option \<times> heap" where
  "sow_all h self variable_type name [] = (None, h)"
| "sow_all h self variable_type name (v # vs) =
     (case sow h self variable_type name v tuple_reduce tuple_init of
        (Some e, h') \<Rightarrow> (Some e, h')
      | (None, h') \<Rightarrow> sow_all h' self variable_type name vs)"

text \<open>A module of the heap: an address that holds an object of a \<^verbatim>\<open>Module\<close> class.\<close>

definition module_at :: "heap \<Rightarrow> addr \<Rightarrow> bool" where
  "module_at h a = is_Module h (PRef a)"

text \<open>
  The attribute holds a \<open>Variable\<close> of exactly the given type with the given value.
\<close>

definition holds_Variable :: "heap \<Rightarrow> addr \<Rightarrow> string \<Rightarrow> string \<Rightarrow> val \<Rightarrow> bool" where
  "holds_Variable h self name variable_type v =
     (case getattr h self name of
        Some (PRef a) \<Rightarrow> lookup h a = Some (Variable variable_type v)
      | _ \<Rightarrow> False)"

section \<open>Traversal: \<^verbatim>\<open>iter_modules\<close> and \<^verbatim>\<open>iter_children\<close>\<close>

text \<open>
  Modelled from the spec: \<^verbatim>\<open>graph.get_node_impl(self).node_dict(self)\<close> is not among the
  sources.  The spec's data model says that a Module holds its named children as
  ordinary attributes; the node dictionary is that attribute dictionary, in the order of
  its keys (the order in which the docstrings of \<^verbatim>\<open>iter_children\<close> and
  \<^verbatim>\<open>iter_modules\<close> list the children of \<^verbatim>\<open>Block\<close>, whose \<^verbatim>\<open>__init__\<close> assigns them
  in another order).  Python compares strings by code point, as the order on
  \<open>string\<close> here does.
\<close>

definition node_dict :: "heap \<Rightarrow> addr \<Rightarrow> (string \<times> val) list" where
  "node_dict h a = sort_key fst (vars h a)"

text \<open>
  Modelled from the spec: \<^verbatim>\<open>graph.is_node\<close>.  The graph nodes are the objects with
  attributes; a \<open>Variable\<close> and a plain value are leaves.
\<close>

definition node_addr :: "heap \<Rightarrow> val \<Rightarrow> addr option" where
  "node_addr h v =
     (case v of
        PRef a \<Rightarrow> (case lookup h a of Some (Object c m cas kvs) \<Rightarrow> Some a | _ \<Rightarrow> None)
      | _ \<Rightarrow> None)"

text \<open>
  Modelled from the spec: \<^verbatim>\<open>graph.iter_graph\<close> is not among the sources.  The spec
  calls it a reflective traversal of the attribute graph and says that the graph
  utility, not \<^verbatim>\<open>Module\<close>, handles cycles and aliasing.  The model is a depth-first
  traversal that enters every object once (it keeps the set of the identities it has
  entered), goes through the node dictionary in order, and yields a node after its
  children, with the path of keys that led to it; a leaf is yielded where it is met.
  This is the order of the docstring of \<^verbatim>\<open>iter_modules\<close>:
  \<^verbatim>\<open>('batch_norm',)\<close>, \<^verbatim>\<open>('dropout',)\<close>, \<^verbatim>\<open>('linear',)\<close>,
  \<^verbatim>\<open>('submodule', 'linear1')\<close>, \<^verbatim>\<open>('submodule', 'linear2')\<close>, \<^verbatim>\<open>('submodule',)\<close>,
  \<^verbatim>\<open>()\<close>.

  The call stack of the recursive generator is explicit: \<open>Visit path value\<close> is a call
  that is still to be made, \<open>Emit path node\<close> the \<^verbatim>\<open>yield\<close> that follows the loop over
  the children of a node.
\<close>

datatype frame = Visit path val | Emit path val

function iter_graph_stack :: "heap \<Rightarrow> addr set \<Rightarrow> frame list \<Rightarrow> (path \<times> val) list" where
  "iter_graph_stack h visited [] = []"
| "iter_graph_stack h visited (Emit path node # stack) =
     (path, node) # iter_graph_stack h visited stack"
| "iter_graph_stack h visited (Visit path node # stack) =
     (case node_addr h node of
        None \<Rightarrow> (path, node) # iter_graph_stack h visited stack
      | Some a \<Rightarrow>
          if a \<in> visited then iter_graph_stack h visited stack
          else iter_graph_stack h (insert a visited)
                 (map (\<lambda>(key, value). Visit (path @ [key]) value) (node_dict h a)
                  @ Emit path node # stack))"
  by pat_completeness auto
termination
proof (relation "measures [\<lambda>(h, visited, stack). card ({..<length h} - visited),
                           \<lambda>(h, visited, stack). length stack]")
  show "wf (measures [\<lambda>(h, visited, stack). card ({..<length h} - visited),
                      \<lambda>(h, visited, stack). length stack])"
    by simp
next
  fix h :: heap and visited :: "addr set" and path :: path and node :: val
    and stack :: "frame list"
  show "((h, visited, stack), h, visited, Emit path node # stack)
          \<in> measures [\<lambda>(h, visited, stack). card ({..<length h} - visited),
                       \<lambda>(h, visited, stack). length stack]"
    by simp
next
  fix h :: heap and visited :: "addr set" and path :: path and node :: val
    and stack :: "frame list"
  show "((h, visited, stack), h, visited, Visit path node # stack)
          \<in> measures [\<lambda>(h, visited, stack). card ({..<length h} - visited),
                       \<lambda>(h, visited, stack). length stack]"
    by simp
next
  fix h :: heap and visited :: "addr set" and path :: path and node :: val
    and stack :: "frame list" and a :: addr
  assume "node_addr h node = Some a" and "a \<in> visited"
  show "((h, visited, stack), h, visited, Visit path node # stack)
          \<in> measures [\<lambda>(h, visited, stack). card ({..<length h} - visited),
                       \<lambda>(h, visited, stack). length stack]"
    by simp
next
  fix h visited path node stack a
  assume a: "node_addr h node = Some a" and n: "a \<notin> visited"
  from a have "a < length h"
    by (auto simp: node_addr_def lookup_def split: val.splits option.splits if_splits cell.splits)
  with n have "a \<in> {..<length h} - visited" by simp
  then have "card ({..<length h} - insert a visited) < card ({..<length h} - visited)"
    by (metis Diff_insert card_Diff1_less finite_Diff finite_lessThan)
  then show "((h, insert a visited,
             map (\<lambda>(key, value). Visit (path @ [key]) value) (node_dict h a)
               @ Emit path node # stack),
            h, visited, Visit path node # stack)
          \<in> measures [\<lambda>(h, visited, stack). card ({..<length h} - visited),
                       \<lambda>(h, visited, stack). length stack]"
    by simp
qed

definition iter_graph :: "heap \<Rightarrow> val \<Rightarrow> (path \<times> val) list" where
  "iter_graph h node = iter_graph_stack h {} [Visit [] node]"

text \<open>
  \<^verbatim>\<open>
  def iter_modules(self):
    for path, value in graph.iter_graph(self):
      if isinstance(value, Module):
        yield path, value
  \<close>
  A module is yielded as its address.
\<close>

definition iter_modules :: "heap \<Rightarrow> addr \<Rightarrow> (path \<times> addr) list" where
  "iter_modules h self =
     [(path, a). (path, PRef a) \<leftarrow> iter_graph h (PRef self), is_Module h (PRef a)]"

text \<open>
  \<^verbatim>\<open>
  def iter_children(self):
    node_dict = graph.get_node_impl(self).node_dict(self)
    for key, value in node_dict.items():
      if isinstance(value, Module):
        yield key, value
  \<close>
\<close>

definition iter_children :: "heap \<Rightarrow> addr \<Rightarrow> (string \<times> addr) list" where
  "iter_children h self =
     [(key, a). (key, PRef a) \<leftarrow> node_dict h self, is_Module h (PRef a)]"

section \<open>\<^verbatim>\<open>set_attributes\<close>, \<^verbatim>\<open>train\<close> and \<^verbatim>\<open>eval\<close>\<close>

text \<open>
  Modelled from the spec: \<^verbatim>\<open>filterlib\<close> is not among the sources.  A predicate is
  called with the path and the module; it is a function of the path, the module's
  identity and the module's object as it is when the predicate is called.  The filters
  are those the source of \<^verbatim>\<open>set_attributes\<close> shows: the literal \<^verbatim>\<open>True\<close> that stands
  for no filter (and \<^verbatim>\<open>False\<close>), a class as in
  \<^verbatim>\<open>block.set_attributes(nnx.Dropout, deterministic=True)\<close>, which selects the modules
  of that class, and a predicate itself.
\<close>

type_synonym predicate = "path \<Rightarrow> addr \<Rightarrow> cell \<Rightarrow> bool"

datatype filter = FBool bool | FType string | FCallable predicate

fun to_predicate :: "filter \<Rightarrow> predicate" where
  "to_predicate (FBool b) = (\<lambda>path a c. b)"
| "to_predicate (FType T) =
     (\<lambda>path a c. case c of Object cl m cas kvs \<Rightarrow> cl = T | Variable t r \<Rightarrow> False)"
| "to_predicate (FCallable f) = f"

text \<open>
  The innermost loop:
  \<^verbatim>\<open>
  for name, value in attributes.items():
    if hasattr(module, name):
      if name in remaining_attributes:
        remaining_attributes.remove(name)
      setattr(module, name, value)
  \<close>
\<close>

fun for_attributes ::
  "heap \<Rightarrow> addr \<Rightarrow> (string \<times> val) list \<Rightarrow> string set \<Rightarrow> heap \<times> string set" where
  "for_attributes h module [] remaining_attributes = (h, remaining_attributes)"
| "for_attributes h module ((name, value) # attributes) remaining_attributes =
     (if hasattr h module name then
        for_attributes (setattr h module name value) module attributes
          (remaining_attributes - {name})
      else for_attributes h module attributes remaining_attributes)"

text \<open>
  The loop over the predicates, left at the first predicate that holds:
  \<^verbatim>\<open>
  for predicate in predicates:
    if predicate(path, module):
      ...
      break
  \<close>
\<close>

fun for_predicates ::
  "heap \<Rightarrow> path \<Rightarrow> addr \<Rightarrow> predicate list \<Rightarrow> (string \<times> val) list \<Rightarrow> string set
     \<Rightarrow> heap \<times> string set" where
  "for_predicates h path module [] attributes remaining_attributes = (h, remaining_attributes)"
| "for_predicates h path module (predicate # predicates) attributes remaining_attributes =
     (if predicate path module (h ! module) then
        for_attributes h module attributes remaining_attributes
      else for_predicates h path module predicates attributes remaining_attributes)"

text \<open>The outer loop, \<^verbatim>\<open>for path, module in self.iter_modules()\<close>.\<close>

fun for_modules ::
  "heap \<Rightarrow> (path \<times> addr) list \<Rightarrow> predicate list \<Rightarrow> (string \<times> val) list \<Rightarrow> string set
     \<Rightarrow> heap \<times> string set" where
  "for_modules h [] predicates attributes remaining_attributes = (h, remaining_attributes)"
| "for_modules h ((path, module) # modules) predicates attributes remaining_attributes =
     (case for_predicates h path module predicates attributes remaining_attributes of
        (h', remaining_attributes') \<Rightarrow>
          for_modules h' modules predicates attributes remaining_attributes')"

text \<open>
  \<^verbatim>\<open>
  def set_attributes(self, *filters, raise_if_not_found=True, **attributes):
    remaining_attributes = set(attributes.keys())
    if not filters:
      filters = (True,)
    predicates = tuple(map(filterlib.to_predicate, filters))
    for path, module in self.iter_modules():
      ...
    if remaining_attributes and raise_if_not_found:
      raise ValueError(
        f'Could not find at least one instance of the following attributes: {remaining_attributes}'
      )
  \<close>
  The keyword arguments are a dictionary in the order they were passed.  The generator
  \<^verbatim>\<open>iter_modules\<close> is run to its end before the loop starts: the loop assigns
  attributes of a module only when the traversal has yielded it, that is after the
  traversal has left it and all that is below it, and no other object changes.  The
  message leaves out the rendering of the set, whose order Python does not fix.
\<close>

definition set_attributes ::
  "heap \<Rightarrow> addr \<Rightarrow> filter list \<Rightarrow> bool \<Rightarrow> (string \<times> val) list \<Rightarrow> error option \<times> heap" where
  "set_attributes h self filters raise_if_not_found attributes =
     (let remaining_attributes = set (map fst attributes);
          filters = (if filters = [] then [FBool True] else filters);
          predicates = map to_predicate filters
      in case for_modules h (iter_modules h self) predicates attributes remaining_attributes of
           (h', remaining_attributes') \<Rightarrow>
             if remaining_attributes' \<noteq> {} \<and> raise_if_not_found then
               (Some (ValueError
                  ''Could not find at least one instance of the following attributes''), h')
             else (None, h'))"

text \<open>
  \<^verbatim>\<open>
  def train(self, **attributes):
    return self.set_attributes(
      deterministic=False, use_running_average=False, **attributes, raise_if_not_found=False)
  def eval(self, **attributes):
    return self.set_attributes(
      deterministic=True, use_running_average=True, **attributes, raise_if_not_found=False)
  \<close>
  A keyword that is passed twice makes the call itself raise \<^verbatim>\<open>TypeError\<close>.
\<close>

definition repeated_keyword :: "(string \<times> val) list \<Rightarrow> bool" where
  "repeated_keyword attributes =
     (\<exists>name \<in> set (map fst attributes).
        name \<in> {''deterministic'', ''use_running_average'', ''raise_if_not_found''})"

definition train :: "heap \<Rightarrow> addr \<Rightarrow> (string \<times> val) list \<Rightarrow> error option \<times> heap" where
  "train h self attributes =
     (if repeated_keyword attributes then
        (Some (TypeError ''got multiple values for keyword argument''), h)
      else set_attributes h self [] False
             ((''deterministic'', PBool False) # (''use_running_average'', PBool False)
                # attributes))"

definition eval :: "heap \<Rightarrow> addr \<Rightarrow> (string \<times> val) list \<Rightarrow> error option \<times> heap" where
  "eval h self attributes =
     (if repeated_keyword attributes then
        (Some (TypeError ''got multiple values for keyword argument''), h)
      else set_attributes h self [] False
             ((''deterministic'', PBool True) # (''use_running_average'', PBool True)
                # attributes))"

section \<open>Pytree registration: \<^verbatim>\<open>_module_flatten\<close> and \<^verbatim>\<open>_module_unflatten\<close>\<close>

text \<open>
  \<^verbatim>\<open>graph.split\<close> and \<^verbatim>\<open>graph.merge\<close> are not among the sources; the two functions
  below take them as parameters.  \<^verbatim>\<open>graph.split\<close> gives a structural description
  (a \<^verbatim>\<open>GraphDef\<close>, of any type \<open>'g\<close>) and a state, whose \<^verbatim>\<open>raw_mapping\<close> is a
  dictionary from keys to leaves: a list of pairs with distinct keys, in insertion
  order.  The keys are of any type that Python can sort.

  \<^verbatim>\<open>State(pairs)\<close> builds the dictionary of the pairs, as \<^verbatim>\<open>dict(pairs)\<close> does.
\<close>

definition State :: "('k \<times> 'v) list \<Rightarrow> ('k \<times> 'v) list" where
  "State pairs = foldl (\<lambda>d (key, value). dict_set d key value) [] pairs"

datatype 'k dict_key = DictKey 'k

text \<open>
  The children that \<^verbatim>\<open>_module_flatten\<close> returns: pairs of a \<^verbatim>\<open>DictKey\<close> and a leaf
  with \<^verbatim>\<open>with_keys=True\<close>, the leaves alone otherwise.
\<close>

datatype ('k, 'v) children = WithKeys "('k dict_key \<times> 'v) list" | Leaves "'v list"

text \<open>
  \<^verbatim>\<open>
  def _module_flatten(module, *, with_keys):
    graphdef, state = graph.split(module)
    key_values = sorted(state.raw_mapping.items())
    keys = tuple(key for key, _ in key_values)
    if with_keys:
      children = tuple((jtu.DictKey(key), value) for key, value in key_values)
    else:
      children = tuple(value for _, value in key_values)
    return children, (keys, graphdef)
  \<close>
  The keys of a dictionary are distinct, so sorting its items sorts them by key.
\<close>

definition module_flatten ::
  "('m \<Rightarrow> 'g \<times> ('k::linorder \<times> 'v) list) \<Rightarrow> 'm \<Rightarrow> bool \<Rightarrow> ('k, 'v) children \<times> ('k list \<times> 'g)" where
  "module_flatten split module with_keys =
     (case split module of
        (graphdef, state) \<Rightarrow>
          let key_values = sort_key fst state;
              keys = map fst key_values;
              children =
                (if with_keys then WithKeys (map (\<lambda>(key, value). (DictKey key, value)) key_values)
                 else Leaves (map snd key_values))
          in (children, (keys, graphdef)))"

text \<open>
  \<^verbatim>\<open>
  def _module_unflatten(paths_moduledef, variables):
    paths, graphdef = paths_moduledef
    return graph.merge(graphdef, State(zip(paths, variables)))
  \<close>
\<close>

definition module_unflatten ::
  "('g \<Rightarrow> ('k \<times> 'v) list \<Rightarrow> 'm) \<Rightarrow> 'k list \<times> 'g \<Rightarrow> 'v list \<Rightarrow> 'm" where
  "module_unflatten merge paths_moduledef variables =
     (case paths_moduledef of
        (paths, graphdef) \<Rightarrow> merge graphdef (State (zip paths variables)))"

text \<open>
  The functions are registered with \<^verbatim>\<open>jax.tree_util.register_pytree_with_keys\<close>, which
  is outside the repository: it hands \<^verbatim>\<open>_module_unflatten\<close> the auxiliary data and
  the children without their keys.
\<close>

definition leaves :: "('k, 'v) children \<Rightarrow> 'v list" where
  "leaves children =
     (case children of
        WithKeys key_values \<Rightarrow> map snd key_values
      | Leaves values \<Rightarrow> values)"

section \<open>Notions used in the statements\<close>

text \<open>
  What the innermost loop of \<^verbatim>\<open>set_attributes\<close> makes of the instance dictionary of
  an object: each keyword whose name the object has as an attribute, in its instance
  dictionary or through its class (\<open>provided\<close>), is assigned, in the order of the
  keywords.
\<close>

fun assign_existing ::
  "(string \<Rightarrow> bool) \<Rightarrow> (string \<times> val) list \<Rightarrow> (string \<times> val) list \<Rightarrow> (string \<times> val) list" where
  "assign_existing provided kvs [] = kvs"
| "assign_existing provided kvs ((name, value) # attributes) =
     assign_existing provided
       (if name \<in> fst ` set kvs \<or> provided name then dict_set kvs name value else kvs)
       attributes"

definition assign_cell :: "(string \<times> val) list \<Rightarrow> cell \<Rightarrow> cell" where
  "assign_cell attributes c =
     (case c of
        Object cl m cas kvs \<Rightarrow>
          Object cl m cas (assign_existing (\<lambda>name. class_getattr c name \<noteq> None) kvs attributes)
      | Variable t r \<Rightarrow> Variable t r)"

text \<open>
  A module at address \<open>a\<close>, yielded with path \<open>path\<close>, satisfies at least one of the
  predicates.
\<close>

definition satisfies :: "heap \<Rightarrow> predicate list \<Rightarrow> path \<Rightarrow> addr \<Rightarrow> bool" where
  "satisfies h predicates path a = list_ex (\<lambda>predicate. predicate path a (h ! a)) predicates"

text \<open>The predicates that \<^verbatim>\<open>set_attributes\<close> makes of its filters.\<close>

definition predicates_of :: "filter list \<Rightarrow> predicate list" where
  "predicates_of filters = map to_predicate (if filters = [] then [FBool True] else filters)"

text \<open>
  The modules that \<^verbatim>\<open>set_attributes\<close> selects: those that \<^verbatim>\<open>iter_modules\<close> yields and
  that satisfy at least one filter predicate.
\<close>

definition selected :: "heap \<Rightarrow> addr \<Rightarrow> filter list \<Rightarrow> addr set" where
  "selected h self filters =
     {a. \<exists>path. (path, a) \<in> set (iter_modules h self)
           \<and> satisfies h (predicates_of filters) path a}"

text \<open>
  One round of the outer loop of \<^verbatim>\<open>set_attributes\<close>: the cell of the module is
  assigned when the module satisfies a predicate, and the names found on it are no
  longer remaining.
\<close>

definition round_heap :: "heap \<Rightarrow> predicate list \<Rightarrow> (string \<times> val) list \<Rightarrow> path \<Rightarrow> addr \<Rightarrow> heap" where
  "round_heap h predicates attributes p a =
     (if satisfies h predicates p a then h[a := assign_cell attributes (h ! a)] else h)"

definition round_remaining ::
  "heap \<Rightarrow> predicate list \<Rightarrow> (string \<times> val) list \<Rightarrow> path \<Rightarrow> addr \<Rightarrow> string set \<Rightarrow> string set" where
  "round_remaining h predicates attributes p a remaining =
     (if satisfies h predicates p a
      then remaining - {n \<in> fst ` set attributes. hasattr h a n} else remaining)"

text \<open>A name is found on one of the modules that satisfy a predicate.\<close>

definition found_on :: "heap \<Rightarrow> (path \<times> addr) list \<Rightarrow> predicate list \<Rightarrow> string \<Rightarrow> bool" where
  "found_on h modules predicates n =
     (\<exists>path a. (path, a) \<in> set modules \<and> satisfies h predicates path a \<and> hasattr h a n)"

text \<open>
  The identities of the nodes that a stack of the traversal is still to yield, and of the
  nodes in what the traversal yields.
\<close>

fun emit_addrs :: "heap \<Rightarrow> frame list \<Rightarrow> addr list" where
  "emit_addrs h [] = []"
| "emit_addrs h (Emit path node # stack) =
     (case node_addr h node of Some a \<Rightarrow> a # emit_addrs h stack | None \<Rightarrow> emit_addrs h stack)"
| "emit_addrs h (Visit path node # stack) = emit_addrs h stack"

fun node_addrs :: "heap \<Rightarrow> (path \<times> val) list \<Rightarrow> addr list" where
  "node_addrs h [] = []"
| "node_addrs h ((path, node) # ys) =
     (case node_addr h node of Some a \<Rightarrow> a # node_addrs h ys | None \<Rightarrow> node_addrs h ys)"

text \<open>
  A value is reached from a root by reading the attributes of a path one after the
  other, each from an object with attributes.
\<close>

inductive path_to :: "heap \<Rightarrow> val \<Rightarrow> path \<Rightarrow> val \<Rightarrow> bool" for h :: heap and root :: val where
  root: "path_to h root [] root"
| attr: "path_to h root path node \<Longrightarrow> node_addr h node = Some a \<Longrightarrow> (key, value) \<in> set (vars h a)
           \<Longrightarrow> path_to h root (path @ [key]) value"

text \<open>The path and the value of a frame of the traversal.\<close>

fun frame_path :: "frame \<Rightarrow> path" where
  "frame_path (Visit path node) = path"
| "frame_path (Emit path node) = path"

fun frame_node :: "frame \<Rightarrow> val" where
  "frame_node (Visit path node) = node"
| "frame_node (Emit path node) = node"

text \<open>
  The objects below a root form a tree: every object with attributes that is reached
  from the root is reached by one path only, so no object is shared and none lies on a
  cycle.
\<close>

definition tree :: "heap \<Rightarrow> addr \<Rightarrow> bool" where
  "tree h root \<longleftrightarrow>
     (\<forall>p q a. path_to h (PRef root) p (PRef a) \<and> path_to h (PRef root) q (PRef a)
        \<and> node_addr h (PRef a) = Some a \<longrightarrow> p = q)"

text \<open>
  An example heap for the statements below: a \<^verbatim>\<open>Block\<close> with a \<^verbatim>\<open>Linear\<close>, a
  \<^verbatim>\<open>Dropout\<close> and a \<^verbatim>\<open>BatchNorm\<close>, as in the docstrings of the source.  The
  \<^verbatim>\<open>Dropout\<close> has \<^verbatim>\<open>deterministic\<close> in its instance dictionary; the
  \<^verbatim>\<open>BatchNorm\<close> has \<^verbatim>\<open>use_running_average\<close> from its class only, as a class-level
  default.
\<close>

definition block :: heap where
  "block =
     [Object ''Block'' True []
        [(''linear'', PRef 1), (''dropout'', PRef 2), (''batch_norm'', PRef 3)],
      Object ''Linear'' True [] [(''kernel'', PRef 4)],
      Object ''Dropout'' True [] [(''rate'', PInt 5), (''deterministic'', PBool True)],
      Object ''BatchNorm'' True [(''use_running_average'', PBool False)] [],
      Variable ''Param'' (PInt 3)]"

text \<open>
  The \<^verbatim>\<open>Block\<close> of the docstrings of \<^verbatim>\<open>iter_modules\<close> and \<^verbatim>\<open>iter_children\<close>, its
  attributes in the order in which \<^verbatim>\<open>__init__\<close> assigns them.
\<close>

definition doc_block :: heap where
  "doc_block =
     [Object ''Block'' True []
        [(''linear'', PRef 1), (''submodule'', PRef 2), (''dropout'', PRef 5),
         (''batch_norm'', PRef 6)],
      Object ''Linear'' True [] [],
      Object ''SubModule'' True [] [(''linear1'', PRef 3), (''linear2'', PRef 4)],
      Object ''Linear'' True [] [],
      Object ''Linear'' True [] [],
      Object ''Dropout'' True [] [(''deterministic'', PBool False)],
      Object ''BatchNorm'' True [] [(''use_running_average'', PBool False)]]"

text \<open>A module that holds itself as an attribute, as after \<^verbatim>\<open>self.me = self\<close>.\<close>

definition self_ref :: heap where
  "self_ref = [Object ''Cell'' True [] [(''me'', PRef 0)]]"

text \<open>A module with one child module.\<close>

definition pair :: heap where
  "pair = [Object ''Block'' True [] [(''linear'', PRef 1)], Object ''Linear'' True [] [(''bias'', PInt 0)]]"

text \<open>
  An instance of \<^verbatim>\<open>graph.split\<close> and \<^verbatim>\<open>graph.merge\<close> for the statement about the
  pytree functions: a module given as its structural description and its state.
\<close>

definition pair_split :: "string \<times> (string \<times> int) list \<Rightarrow> string \<times> (string \<times> int) list" where
  "pair_split module = module"

definition pair_merge :: "string \<Rightarrow> (string \<times> int) list \<Rightarrow> string \<times> (string \<times> int) list" where
  "pair_merge graphdef state = (graphdef, state)"

section \<open>Properties of \<^verbatim>\<open>first_from\<close>\<close>

lemma first_from_Inl_iff:
  "first_from args msg = Inl e \<longleftrightarrow> (e = ValueError msg \<and> (\<forall>a \<in> set args. a = None))"
  by (induction args) (auto split: option.splits)

lemma first_from_prefix:
  "\<forall>a \<in> set pre. a = None \<Longrightarrow> first_from (pre @ Some x # post) msg = Inr x"
  by (induction pre) auto

lemma first_from_Inr:
  "first_from args msg = Inr x \<Longrightarrow> \<exists>pre post. args = pre @ Some x # post \<and> (\<forall>a \<in> set pre. a = None)"
proof (induction args)
  case Nil
  then show ?case by simp
next
  case (Cons a args)
  show ?case
  proof (cases a)
    case None
    with Cons.prems have "first_from args msg = Inr x" by simp
    with Cons.IH obtain pre post where "args = pre @ Some x # post" "\<forall>a \<in> set pre. a = None"
      by blast
    with None have "a # args = (None # pre) @ Some x # post \<and> (\<forall>a \<in> set (None # pre). a = None)"
      by simp
    then show ?thesis by blast
  next
    case (Some y)
    with Cons.prems have "a # args = [] @ Some x # args \<and> (\<forall>a \<in> set []. a = None)"
      by simp
    then show ?thesis by blast
  qed
qed

text \<open>
  Claim C10.  \<^verbatim>\<open>first_from\<close> returns \<open>x\<close> exactly when the arguments are some
  \<open>None\<close>s, then \<open>x\<close> (which is not \<open>None\<close>), then anything: \<open>x\<close> is the first
  argument in positional order that is not \<open>None\<close>.  It raises exactly when every
  argument is \<open>None\<close> (so also when there is no argument), and what it raises is
  \<^verbatim>\<open>ValueError\<close> with the given message.
\<close>

theorem first_from_spec:
  "(first_from args msg = Inr x \<longleftrightarrow>
      (\<exists>pre post. args = pre @ Some x # post \<and> (\<forall>a \<in> set pre. a = None)))
   \<and> ((\<exists>e. first_from args msg = Inl e) \<longleftrightarrow> (\<forall>a \<in> set args. a = None))
   \<and> (\<forall>e. first_from args msg = Inl e \<longrightarrow> e = ValueError msg)"
proof (intro conjI)
  show "first_from args msg = Inr x \<longleftrightarrow>
      (\<exists>pre post. args = pre @ Some x # post \<and> (\<forall>a \<in> set pre. a = None))"
  proof
    assume "first_from args msg = Inr x"
    then show "\<exists>pre post. args = pre @ Some x # post \<and> (\<forall>a \<in> set pre. a = None)"
      by (rule first_from_Inr)
  next
    assume "\<exists>pre post. args = pre @ Some x # post \<and> (\<forall>a \<in> set pre. a = None)"
    then obtain pre post where "args = pre @ Some x # post" "\<forall>a \<in> set pre. a = None"
      by blast
    then show "first_from args msg = Inr x"
      by (simp add: first_from_prefix)
  qed
  show "(\<exists>e. first_from args msg = Inl e) \<longleftrightarrow> (\<forall>a \<in> set args. a = None)"
    by (simp add: first_from_Inl_iff)
  show "\<forall>e. first_from args msg = Inl e \<longrightarrow> e = ValueError msg"
    by (simp add: first_from_Inl_iff)
qed

theorem first_from_spec_witness:
  "first_from [None, Some (3::int), None, Some 4] ''all None'' = Inr 3
   \<and> first_from [None, None :: int option] ''all None'' = Inl (ValueError ''all None'')"
proof
  have "\<exists>pre post. [None, Some (3::int), None, Some 4] = pre @ Some 3 # post
      \<and> (\<forall>a \<in> set pre. a = None)"
    by (rule exI [of _ "[None]"], rule exI [of _ "[None, Some 4]"]) simp
  then show "first_from [None, Some (3::int), None, Some 4] ''all None'' = Inr 3"
    using first_from_spec [of "[None, Some (3::int), None, Some 4]" "''all None''" 3]
    by (rule_tac iffD2) (erule conjunct1)
next
  have "\<forall>a \<in> set [None, None :: int option]. a = None" by simp
  then obtain e where e: "first_from [None, None :: int option] ''all None'' = Inl e"
    using first_from_spec [of "[None, None :: int option]" "''all None''" 0] by blast
  then have "e = ValueError ''all None''"
    using first_from_spec [of "[None, None :: int option]" "''all None''" 0] by blast
  with e show "first_from [None, None :: int option] ''all None'' = Inl (ValueError ''all None'')"
    by simp
qed

section \<open>Properties of \<^verbatim>\<open>sow\<close>\<close>

lemma map_of_dict_set: "map_of (dict_set kvs k v) = (map_of kvs)(k \<mapsto> v)"
  by (induction kvs) (auto simp: fun_eq_iff)

lemma lookup_append_old: "a < length h \<Longrightarrow> lookup (h @ xs) a = lookup h a"
  by (simp add: lookup_def nth_append)

lemma lookup_update:
  "lookup (h[a := c]) b = (if b < length h then (if b = a then Some c else lookup h b) else None)"
  by (simp add: lookup_def)

lemma lookup_Some_less: "lookup h a = Some c \<Longrightarrow> a < length h"
  by (simp add: lookup_def split: if_splits)

lemma module_at_Object: "module_at h a \<longleftrightarrow> (\<exists>c cas kvs. lookup h a = Some (Object c True cas kvs))"
  by (auto simp: module_at_def is_Module_def split: option.splits cell.splits)

text \<open>
  Every module has the methods of \<^verbatim>\<open>Module\<close> as attributes, so \<^verbatim>\<open>hasattr\<close> is true for
  names such as \<^verbatim>\<open>sow\<close> and \<^verbatim>\<open>eval\<close> on every module.
\<close>

lemma module_has_methods:
  assumes "module_at h m" and "name \<in> set Module_methods"
  shows "hasattr h m name"
proof -
  from assms(1) obtain c cas kvs where "lookup h m = Some (Object c True cas kvs)"
    by (auto simp: module_at_Object)
  with assms(2) show ?thesis
    by (simp add: hasattr_def getattr_def object_getattr_def class_getattr_def
        split: option.splits)
qed

lemma sow_first:
  assumes "module_at h m" and "\<not> hasattr h m name"
  shows "sow h m T name v tuple_reduce tuple_init
           = (None, setattr (h @ [Variable T (PTuple [v])]) m name (PRef (length h)))"
  using assms
  by (simp add: sow_def hasattr_def getattr_def tuple_reduce_def tuple_init_def new_Variable_def)

lemma holds_after_create:
  assumes "module_at h m"
  shows "holds_Variable (setattr (h @ [Variable T r]) m name (PRef (length h))) m name T r
         \<and> module_at (setattr (h @ [Variable T r]) m name (PRef (length h))) m"
proof -
  from assms obtain c cas kvs where c: "lookup h m = Some (Object c True cas kvs)"
    by (auto simp: module_at_Object)
  then have m: "m < length h" by (rule lookup_Some_less)
  then have "lookup (h @ [Variable T r]) m = Some (Object c True cas kvs)"
    using c by (simp add: lookup_append_old)
  then show ?thesis using m
    by (simp add: holds_Variable_def getattr_def object_getattr_def setattr_def lookup_update
        map_of_dict_set module_at_Object lookup_def nth_append)
qed

lemma sow_next:
  assumes "module_at h m" and "holds_Variable h m name T (PTuple xs)"
  shows "\<exists>h'. sow h m T name v tuple_reduce tuple_init = (None, h')
           \<and> holds_Variable h' m name T (PTuple (xs @ [v])) \<and> module_at h' m
           \<and> length h' = length h"
proof -
  from assms(2) obtain a where a: "getattr h m name = Some (PRef a)"
      "lookup h a = Some (Variable T (PTuple xs))"
    by (auto simp: holds_Variable_def split: option.splits val.splits)
  from assms(1) obtain c cas kvs where c: "lookup h m = Some (Object c True cas kvs)"
    by (auto simp: module_at_Object)
  from a(2) c have ne: "a \<noteq> m" by auto
  have al: "a < length h" using a(2) by (rule lookup_Some_less)
  have ml: "m < length h" using c by (rule lookup_Some_less)
  let ?h' = "h[a := Variable T (PTuple (xs @ [v]))]"
  have s: "sow h m T name v tuple_reduce tuple_init = (None, ?h')"
    using a by (simp add: sow_def as_Variable_def tuple_reduce_def set_raw_value_def)
  have "lookup ?h' m = lookup h m" using ne ml by (simp add: lookup_update)
  then have g: "getattr ?h' m name = Some (PRef a)" "module_at ?h' m"
    using a(1) assms(1) by (simp_all add: getattr_def module_at_def is_Module_def)
  have "lookup ?h' a = Some (Variable T (PTuple (xs @ [v])))"
    using al by (simp add: lookup_update)
  with g have "holds_Variable ?h' m name T (PTuple (xs @ [v]))"
    by (simp add: holds_Variable_def)
  with s g(2) show ?thesis by simp
qed

lemma sow_all_from:
  assumes "module_at h m" and "holds_Variable h m name T (PTuple xs)"
  shows "\<exists>h'. sow_all h m T name vs = (None, h')
           \<and> holds_Variable h' m name T (PTuple (xs @ vs)) \<and> module_at h' m"
  using assms
proof (induction vs arbitrary: h xs)
  case Nil
  then show ?case by simp
next
  case (Cons v vs)
  from sow_next [OF Cons.prems, of v] obtain h1 where
    h1: "sow h m T name v tuple_reduce tuple_init = (None, h1)"
      "holds_Variable h1 m name T (PTuple (xs @ [v]))" "module_at h1 m"
    by blast
  from Cons.IH [OF h1(3) h1(2)] obtain h' where
    "sow_all h1 m T name vs = (None, h')" "holds_Variable h' m name T (PTuple ((xs @ [v]) @ vs))"
    "module_at h' m"
    by blast
  with h1(1) show ?case by simp
qed

text \<open>
  Claim C2.  For a module \<open>m\<close> that has no attribute \<open>name\<close>, neither in its instance
  dictionary nor through its class (\<^verbatim>\<open>hasattr\<close> is false): the first call of
  \<^verbatim>\<open>sow\<close> with the default functions creates a new \<open>Variable\<close> of type \<open>T\<close> holding
  the one-element tuple \<open>(v,)\<close> and stores it under \<open>name\<close>; a call on a module whose
  attribute holds a \<open>Variable\<close> of type \<open>T\<close> with a tuple appends the value to that tuple
  and creates no object; and after the calls for \<open>v\<^sub>1, \<dots>, v\<^sub>k\<close> (\<open>k \<ge> 1\<close>), none of
  which raises, the attribute holds a \<open>Variable\<close> of exactly type \<open>T\<close> whose value is the
  tuple \<open>(v\<^sub>1, \<dots>, v\<^sub>k)\<close>.
\<close>

theorem sow_default_accumulates:
  assumes "module_at h m" and "\<not> hasattr h m name"
  shows "sow h m T name v tuple_reduce tuple_init
           = (None, setattr (h @ [Variable T (PTuple [v])]) m name (PRef (length h)))
     \<and> holds_Variable (setattr (h @ [Variable T (PTuple [v])]) m name (PRef (length h)))
          m name T (PTuple [v])
     \<and> (\<forall>h1 xs. module_at h1 m \<and> holds_Variable h1 m name T (PTuple xs) \<longrightarrow>
          (\<exists>h2. sow h1 m T name v tuple_reduce tuple_init = (None, h2)
             \<and> holds_Variable h2 m name T (PTuple (xs @ [v])) \<and> length h2 = length h1))
     \<and> (vs \<noteq> [] \<longrightarrow>
          (\<exists>h'. sow_all h m T name vs = (None, h') \<and> holds_Variable h' m name T (PTuple vs)))"
proof (intro conjI)
  show "sow h m T name v tuple_reduce tuple_init
           = (None, setattr (h @ [Variable T (PTuple [v])]) m name (PRef (length h)))"
    using assms by (rule sow_first)
  show "holds_Variable (setattr (h @ [Variable T (PTuple [v])]) m name (PRef (length h)))
          m name T (PTuple [v])"
    using holds_after_create [OF assms(1)] by simp
  show "\<forall>h1 xs. module_at h1 m \<and> holds_Variable h1 m name T (PTuple xs) \<longrightarrow>
          (\<exists>h2. sow h1 m T name v tuple_reduce tuple_init = (None, h2)
             \<and> holds_Variable h2 m name T (PTuple (xs @ [v])) \<and> length h2 = length h1)"
  proof (intro allI impI)
    fix h1 xs
    assume "module_at h1 m \<and> holds_Variable h1 m name T (PTuple xs)"
    then have "module_at h1 m" "holds_Variable h1 m name T (PTuple xs)" by simp_all
    from sow_next [OF this, of v]
    show "\<exists>h2. sow h1 m T name v tuple_reduce tuple_init = (None, h2)
             \<and> holds_Variable h2 m name T (PTuple (xs @ [v])) \<and> length h2 = length h1"
      by blast
  qed
  show "vs \<noteq> [] \<longrightarrow>
          (\<exists>h'. sow_all h m T name vs = (None, h') \<and> holds_Variable h' m name T (PTuple vs))"
  proof
    assume "vs \<noteq> []"
    then obtain w ws where vs: "vs = w # ws" by (cases vs) auto
    let ?h1 = "setattr (h @ [Variable T (PTuple [w])]) m name (PRef (length h))"
    have s: "sow h m T name w tuple_reduce tuple_init = (None, ?h1)"
      using assms by (rule sow_first)
    from holds_after_create [OF assms(1), of T "PTuple [w]" name]
    have "holds_Variable ?h1 m name T (PTuple [w])" "module_at ?h1 m" by simp_all
    from sow_all_from [OF this(2) this(1), of ws] obtain h' where
      "sow_all ?h1 m T name ws = (None, h')" "holds_Variable h' m name T (PTuple ([w] @ ws))"
      by blast
    with s vs show "\<exists>h'. sow_all h m T name vs = (None, h') \<and> holds_Variable h' m name T (PTuple vs)"
      by simp
  qed
qed

theorem sow_default_accumulates_witness:
  "sow [Object ''Model'' True [] [(''linear1'', PInt 1)]] 0 ''Intermediate'' ''i'' (PInt 7)
       tuple_reduce tuple_init
     = (None, [Object ''Model'' True [] [(''linear1'', PInt 1), (''i'', PRef 1)],
               Variable ''Intermediate'' (PTuple [PInt 7])])
   \<and> (\<exists>h'. sow_all [Object ''Model'' True [] [(''linear1'', PInt 1)]] 0 ''Intermediate'' ''i''
              [PInt 7, PInt 8] = (None, h')
          \<and> holds_Variable h' 0 ''i'' ''Intermediate'' (PTuple [PInt 7, PInt 8]))"
proof -
  have m: "module_at [Object ''Model'' True [] [(''linear1'', PInt 1)]] 0"
    by (simp add: module_at_def is_Module_def lookup_def)
  have n: "\<not> hasattr [Object ''Model'' True [] [(''linear1'', PInt 1)]] 0 ''i''"
    by code_simp
  have e: "setattr ([Object ''Model'' True [] [(''linear1'', PInt 1)]]
              @ [Variable ''Intermediate'' (PTuple [PInt 7])]) 0 ''i''
              (PRef (length [Object ''Model'' True [] [(''linear1'', PInt 1)]]))
        = [Object ''Model'' True [] [(''linear1'', PInt 1), (''i'', PRef 1)],
               Variable ''Intermediate'' (PTuple [PInt 7])]"
    by (simp add: setattr_def lookup_def)
  note t = sow_default_accumulates [OF m n, of "''Intermediate''" "PInt 7" "[PInt 7, PInt 8]"]
  from t have "sow [Object ''Model'' True [] [(''linear1'', PInt 1)]] 0 ''Intermediate'' ''i''
      (PInt 7) tuple_reduce tuple_init
    = (None, setattr ([Object ''Model'' True [] [(''linear1'', PInt 1)]]
              @ [Variable ''Intermediate'' (PTuple [PInt 7])]) 0 ''i''
              (PRef (length [Object ''Model'' True [] [(''linear1'', PInt 1)]])))"
    by (rule conjunct1)
  then have first: "sow [Object ''Model'' True [] [(''linear1'', PInt 1)]] 0 ''Intermediate'' ''i''
      (PInt 7) tuple_reduce tuple_init
    = (None, [Object ''Model'' True [] [(''linear1'', PInt 1), (''i'', PRef 1)],
               Variable ''Intermediate'' (PTuple [PInt 7])])"
    by (simp only: e)
  from t have "[PInt 7, PInt 8] \<noteq> [] \<longrightarrow>
     (\<exists>h'. sow_all [Object ''Model'' True [] [(''linear1'', PInt 1)]] 0 ''Intermediate'' ''i''
              [PInt 7, PInt 8] = (None, h')
          \<and> holds_Variable h' 0 ''i'' ''Intermediate'' (PTuple [PInt 7, PInt 8]))"
    by (elim conjE)
  moreover have "[PInt 7, PInt 8] \<noteq> []" by simp
  ultimately have "\<exists>h'. sow_all [Object ''Model'' True [] [(''linear1'', PInt 1)]] 0
              ''Intermediate'' ''i'' [PInt 7, PInt 8] = (None, h')
          \<and> holds_Variable h' 0 ''i'' ''Intermediate'' (PTuple [PInt 7, PInt 8])"
    by (rule mp)
  with first show ?thesis by (rule conjI)
qed

text \<open>
  Claim C9.  When the module has an attribute of the given name, in its instance
  dictionary or through its class (a method such as \<^verbatim>\<open>eval\<close>, a class-level value),
  whose value is not a \<open>Variable\<close>, or is a \<open>Variable\<close> whose exact type is not
  \<open>variable_type\<close>,
  \<^verbatim>\<open>sow\<close> raises \<^verbatim>\<open>ValueError\<close> (whatever the value, \<^verbatim>\<open>reduce_fn\<close> and
  \<^verbatim>\<open>init_fn\<close> are) and leaves the whole heap, so also the attribute and the object it
  refers to, as it was.
\<close>

theorem sow_rejects_other_attribute:
  assumes "getattr h m name = Some variable"
    and "\<not> is_Variable h variable \<or> type_name h variable \<noteq> T"
  shows "\<exists>msg. sow h m T name v reduce_fn init_fn = (Some (ValueError msg), h)"
proof (cases "as_Variable h variable")
  case None
  with assms(1) show ?thesis by (simp add: sow_def)
next
  case (Some atr)
  then obtain a t r where atr: "as_Variable h variable = Some (a, t, r)"
    by (cases atr) auto
  then have "is_Variable h variable" "type_name h variable = t"
    by (auto simp: as_Variable_def is_Variable_def type_name_def
        split: val.splits option.splits cell.splits)
  with assms(2) have "t \<noteq> T" by simp
  with assms(1) atr show ?thesis by (simp add: sow_def)
qed

theorem sow_rejects_other_attribute_witness:
  "(\<exists>msg. sow [Object ''Model'' True [] [(''i'', PInt 1)]] 0 ''Intermediate'' ''i'' (PInt 7)
       tuple_reduce tuple_init
     = (Some (ValueError msg), [Object ''Model'' True [] [(''i'', PInt 1)]]))
   \<and> (\<exists>msg. sow [Object ''Model'' True [] [(''i'', PRef 1)], Variable ''Param'' (PTuple [])]
       0 ''Intermediate'' ''i'' (PInt 7) tuple_reduce tuple_init
     = (Some (ValueError msg),
        [Object ''Model'' True [] [(''i'', PRef 1)], Variable ''Param'' (PTuple [])]))
   \<and> (\<exists>msg. sow [Object ''Model'' True [] []] 0 ''Intermediate'' ''eval'' (PInt 7)
       tuple_reduce tuple_init
     = (Some (ValueError msg), [Object ''Model'' True [] []]))"
proof (intro conjI)
  have g: "getattr [Object ''Model'' True [] [(''i'', PInt 1)]] 0 ''i'' = Some (PInt 1)"
    by code_simp
  have n: "\<not> is_Variable [Object ''Model'' True [] [(''i'', PInt 1)]] (PInt 1)
      \<or> type_name [Object ''Model'' True [] [(''i'', PInt 1)]] (PInt 1) \<noteq> ''Intermediate''"
    by (simp add: is_Variable_def)
  show "\<exists>msg. sow [Object ''Model'' True [] [(''i'', PInt 1)]] 0 ''Intermediate'' ''i'' (PInt 7)
       tuple_reduce tuple_init
     = (Some (ValueError msg), [Object ''Model'' True [] [(''i'', PInt 1)]])"
    using sow_rejects_other_attribute [OF g n] .
next
  let ?h = "[Object ''Model'' True [] [(''i'', PRef 1)], Variable ''Param'' (PTuple [])]"
  have g: "getattr ?h 0 ''i'' = Some (PRef 1)"
    by code_simp
  have n: "\<not> is_Variable ?h (PRef 1) \<or> type_name ?h (PRef 1) \<noteq> ''Intermediate''"
    by (simp add: type_name_def lookup_def)
  show "\<exists>msg. sow ?h 0 ''Intermediate'' ''i'' (PInt 7) tuple_reduce tuple_init
     = (Some (ValueError msg), ?h)"
    using sow_rejects_other_attribute [OF g n] .
next
  let ?h = "[Object ''Model'' True [] []]"
  have g: "getattr ?h 0 ''eval'' = Some (PMethod ''eval'')"
    by code_simp
  have n: "\<not> is_Variable ?h (PMethod ''eval'') \<or> type_name ?h (PMethod ''eval'') \<noteq> ''Intermediate''"
    by (simp add: is_Variable_def)
  show "\<exists>msg. sow ?h 0 ''Intermediate'' ''eval'' (PInt 7) tuple_reduce tuple_init
     = (Some (ValueError msg), ?h)"
    using sow_rejects_other_attribute [OF g n] .
qed

section \<open>The loops of \<^verbatim>\<open>set_attributes\<close>\<close>

lemma fst_set_dict_set: "fst ` set (dict_set kvs k v) = insert k (fst ` set kvs)"
proof (induction kvs)
  case Nil
  then show ?case by simp
next
  case (Cons kv kvs)
  obtain k' v' where kv: "kv = (k', v')" by (cases kv)
  show ?case
  proof (cases "k' = k")
    case True
    with kv show ?thesis by simp
  next
    case False
    with kv Cons show ?thesis by (simp add: insert_commute)
  qed
qed

lemma fst_set_assign_existing:
  "fst ` set (assign_existing P kvs attributes)
     = fst ` set kvs \<union> {n \<in> fst ` set attributes. P n}"
proof (induction attributes arbitrary: kvs)
  case Nil
  then show ?case by simp
next
  case (Cons nv attributes)
  obtain n v where nv: "nv = (n, v)" by (cases nv)
  show ?case
  proof (cases "n \<in> fst ` set kvs \<or> P n")
    case True
    have "fst ` set (assign_existing P kvs (nv # attributes))
        = fst ` set (dict_set kvs n v) \<union> {k \<in> fst ` set attributes. P k}"
      using True nv Cons [of "dict_set kvs n v"] by simp
    also have "\<dots> = fst ` set kvs \<union> {k \<in> fst ` set (nv # attributes). P k}"
      using True nv by (auto simp: fst_set_dict_set)
    finally show ?thesis .
  next
    case False
    have "fst ` set (assign_existing P kvs (nv # attributes))
        = fst ` set kvs \<union> {k \<in> fst ` set attributes. P k}"
      using False nv Cons [of kvs] by simp
    also have "\<dots> = fst ` set kvs \<union> {k \<in> fst ` set (nv # attributes). P k}"
      using False nv by auto
    finally show ?thesis .
  qed
qed

lemma map_of_rev_Cons:
  "map_of (rev (nv # attributes)) n =
     (case map_of (rev attributes) n of Some v \<Rightarrow> Some v | None \<Rightarrow> map_of [nv] n)"
  by (simp add: map_add_def split: option.splits)

lemma map_of_assign_existing:
  "map_of (assign_existing P kvs attributes) n =
     (if n \<in> fst ` set kvs \<or> P n then
        (case map_of (rev attributes) n of Some v \<Rightarrow> Some v | None \<Rightarrow> map_of kvs n)
      else None)"
proof (induction attributes arbitrary: kvs)
  case Nil
  then show ?case by (simp add: map_of_eq_None_iff)
next
  case (Cons nv attributes)
  obtain n' v' where nv: "nv = (n', v')" by (cases nv)
  show ?case
  proof (cases "n' \<in> fst ` set kvs \<or> P n'")
    case True
    have k: "fst ` set (dict_set kvs n' v') = insert n' (fst ` set kvs)"
      by (rule fst_set_dict_set)
    have "map_of (assign_existing P kvs (nv # attributes)) n
        = map_of (assign_existing P (dict_set kvs n' v') attributes) n"
      using True nv by simp
    also have "\<dots> = (if n \<in> insert n' (fst ` set kvs) \<or> P n then
        (case map_of (rev attributes) n of Some v \<Rightarrow> Some v
         | None \<Rightarrow> map_of (dict_set kvs n' v') n)
      else None)"
      using Cons [of "dict_set kvs n' v'"] k by simp
    also have "\<dots> = (if n \<in> fst ` set kvs \<or> P n then
        (case map_of (rev (nv # attributes)) n of Some v \<Rightarrow> Some v | None \<Rightarrow> map_of kvs n)
      else None)"
    proof (cases "n = n'")
      case eq: True
      with True show ?thesis unfolding map_of_rev_Cons using nv
        by (simp add: map_of_dict_set split: option.splits)
    next
      case False
      then show ?thesis unfolding map_of_rev_Cons using nv
        by (simp add: map_of_dict_set split: option.splits)
    qed
    finally show ?thesis .
  next
    case False
    have "map_of (assign_existing P kvs (nv # attributes)) n
        = map_of (assign_existing P kvs attributes) n"
      using False nv by simp
    also have "\<dots> = (if n \<in> fst ` set kvs \<or> P n then
        (case map_of (rev attributes) n of Some v \<Rightarrow> Some v | None \<Rightarrow> map_of kvs n)
      else None)"
      using Cons [of kvs] by simp
    also have "\<dots> = (if n \<in> fst ` set kvs \<or> P n then
        (case map_of (rev (nv # attributes)) n of Some v \<Rightarrow> Some v | None \<Rightarrow> map_of kvs n)
      else None)"
    proof (cases "n = n'")
      case True
      with False show ?thesis by simp
    next
      case False
      then show ?thesis unfolding map_of_rev_Cons using nv by (simp split: option.splits)
    qed
    finally show ?thesis .
  qed
qed

lemma vars_Object: "lookup h a = Some (Object c m cas kvs) \<Longrightarrow> vars h a = kvs"
  by (simp add: vars_def)

lemma class_getattr_kvs:
  "class_getattr (Object c m cas kvs') n = class_getattr (Object c m cas kvs) n"
  by (simp add: class_getattr_def)

lemma object_hasattr_iff:
  "object_getattr (Object c m cas kvs) n \<noteq> None
     \<longleftrightarrow> n \<in> fst ` set kvs \<or> class_getattr (Object c m cas kvs) n \<noteq> None"
proof (cases "map_of kvs n")
  case None
  then have "n \<notin> fst ` set kvs" by (simp add: map_of_eq_None_iff)
  with None show ?thesis by (simp add: object_getattr_def)
next
  case (Some v)
  then have "n \<in> fst ` set kvs" by (metis map_of_eq_None_iff option.distinct(1))
  with Some show ?thesis by (simp add: object_getattr_def)
qed

lemma hasattr_Object:
  "lookup h a = Some (Object c m cas kvs) \<Longrightarrow>
     hasattr h a n \<longleftrightarrow> n \<in> fst ` set kvs \<or> class_getattr (Object c m cas kvs) n \<noteq> None"
  using object_hasattr_iff [of c m cas kvs n] by (simp add: hasattr_def getattr_def)

lemma hasattr_is_Object:
  "hasattr h a n \<Longrightarrow> \<exists>c m cas kvs. lookup h a = Some (Object c m cas kvs)"
  by (cases "lookup h a")
     (auto simp: hasattr_def getattr_def object_getattr_def split: cell.splits)

text \<open>The innermost loop changes one cell of the heap.\<close>

lemma for_attributes_eq:
  "for_attributes h a attributes remaining =
     (h[a := assign_cell attributes (h ! a)],
      remaining - {n \<in> fst ` set attributes. hasattr h a n})"
proof (induction attributes arbitrary: h remaining)
  case Nil
  have "assign_cell [] (h ! a) = h ! a"
    by (cases "h ! a") (simp_all add: assign_cell_def)
  then have "h[a := assign_cell [] (h ! a)] = h"
    by simp
  then show ?case by simp
next
  case (Cons nv attributes)
  obtain n v where nv: "nv = (n, v)" by (cases nv)
  show ?case
  proof (cases "hasattr h a n")
    case True
    then obtain c m cas kvs where obj: "lookup h a = Some (Object c m cas kvs)"
      using hasattr_is_Object by blast
    then have al: "a < length h" and ha: "h ! a = Object c m cas kvs"
      by (auto simp: lookup_def split: if_splits)
    from True obj have nk: "n \<in> fst ` set kvs \<or> class_getattr (Object c m cas kvs) n \<noteq> None"
      by (simp add: hasattr_Object)
    let ?h1 = "setattr h a n v"
    have h1: "?h1 = h[a := Object c m cas (dict_set kvs n v)]"
      using obj by (simp add: setattr_def)
    have h1a: "?h1 ! a = Object c m cas (dict_set kvs n v)" using al h1 by simp
    have l1: "lookup ?h1 a = Some (Object c m cas (dict_set kvs n v))"
      using al h1 by (simp add: lookup_def)
    have has: "\<And>k. hasattr ?h1 a k = hasattr h a k"
    proof -
      fix k
      have "hasattr ?h1 a k \<longleftrightarrow>
          k \<in> insert n (fst ` set kvs) \<or> class_getattr (Object c m cas kvs) k \<noteq> None"
        using hasattr_Object [OF l1, of k]
        by (simp add: fst_set_dict_set class_getattr_kvs [of c m cas "dict_set kvs n v" k kvs])
      also have "\<dots> \<longleftrightarrow> hasattr h a k"
        using nk hasattr_Object [OF obj, of k] by auto
      finally show "hasattr ?h1 a k = hasattr h a k" .
    qed
    have "assign_cell attributes (?h1 ! a)
        = Object c m cas (assign_existing (\<lambda>name. class_getattr (Object c m cas kvs) name \<noteq> None)
            (dict_set kvs n v) attributes)"
      unfolding h1a assign_cell_def
      by (simp add: class_getattr_kvs [of c m cas "dict_set kvs n v" _ kvs])
    moreover have "assign_cell (nv # attributes) (h ! a)
        = Object c m cas (assign_existing (\<lambda>name. class_getattr (Object c m cas kvs) name \<noteq> None)
            (dict_set kvs n v) attributes)"
      unfolding ha assign_cell_def using nk nv by auto
    ultimately have "?h1[a := assign_cell attributes (?h1 ! a)]
        = h[a := assign_cell (nv # attributes) (h ! a)]"
      using h1 by simp
    moreover have "remaining - {n} - {k \<in> fst ` set attributes. hasattr ?h1 a k}
        = remaining - {k \<in> fst ` set (nv # attributes). hasattr h a k}"
      using True nv has by auto
    ultimately show ?thesis using True nv Cons [of ?h1 "remaining - {n}"] by simp
  next
    case False
    have "assign_cell (nv # attributes) (h ! a) = assign_cell attributes (h ! a) \<or> \<not> a < length h"
    proof (cases "a < length h")
      case True
      show ?thesis
      proof (cases "h ! a")
        case (Variable t r)
        then show ?thesis by (simp add: assign_cell_def)
      next
        case (Object c m cas kvs)
        with True have "lookup h a = Some (Object c m cas kvs)" by (simp add: lookup_def)
        with False have "\<not> (n \<in> fst ` set kvs \<or> class_getattr (Object c m cas kvs) n \<noteq> None)"
          by (simp add: hasattr_Object)
        with Object nv show ?thesis by (simp add: assign_cell_def)
      qed
    next
      case False
      then show ?thesis by simp
    qed
    then have "h[a := assign_cell (nv # attributes) (h ! a)] = h[a := assign_cell attributes (h ! a)]"
      by (auto simp: list_update_beyond)
    moreover have "{k \<in> fst ` set (nv # attributes). hasattr h a k}
        = {k \<in> fst ` set attributes. hasattr h a k}"
      using False nv by auto
    ultimately show ?thesis using False nv Cons [of h remaining] by simp
  qed
qed

lemma for_predicates_eq:
  "for_predicates h path a predicates attributes remaining =
     (if satisfies h predicates path a then for_attributes h a attributes remaining
      else (h, remaining))"
  by (induction predicates) (simp_all add: satisfies_def)


lemma satisfies_cong: "h1 ! a = h ! a \<Longrightarrow> satisfies h1 predicates path a = satisfies h predicates path a"
  by (simp add: satisfies_def)

lemma hasattr_cong:
  "length h1 = length h \<Longrightarrow> h1 ! a = h ! a \<Longrightarrow> hasattr h1 a n = hasattr h a n"
  by (simp add: hasattr_def getattr_def lookup_def)

lemma for_modules_Cons:
  "for_modules h ((p, a) # modules) predicates attributes remaining
     = for_modules (round_heap h predicates attributes p a) modules predicates attributes
         (round_remaining h predicates attributes p a remaining)"
  by (simp add: for_predicates_eq for_attributes_eq round_heap_def round_remaining_def)

lemma round_heap_length: "length (round_heap h predicates attributes p a) = length h"
  by (simp add: round_heap_def)

lemma round_heap_other: "b \<noteq> a \<Longrightarrow> round_heap h predicates attributes p a ! b = h ! b"
  by (simp add: round_heap_def)

lemma round_heap_same:
  "a < length h \<Longrightarrow> round_heap h predicates attributes p a ! a
     = (if satisfies h predicates p a then assign_cell attributes (h ! a) else h ! a)"
  by (simp add: round_heap_def)

lemma for_modules_length:
  "length (fst (for_modules h modules predicates attributes remaining)) = length h"
proof (induction modules arbitrary: h remaining)
  case Nil
  then show ?case by simp
next
  case (Cons pa modules)
  obtain p a where pa: "pa = (p, a)" by (cases pa)
  show ?case
    unfolding pa for_modules_Cons
    by (simp only: Cons round_heap_length)
qed


lemma for_modules_nth:
  assumes "distinct (map snd modules)" and "b < length h"
  shows "fst (for_modules h modules predicates attributes remaining) ! b =
           (if \<exists>path. (path, b) \<in> set modules \<and> satisfies h predicates path b
            then assign_cell attributes (h ! b) else h ! b)"
  using assms
proof (induction modules arbitrary: h remaining)
  case Nil
  then show ?case by simp
next
  case (Cons pa modules)
  obtain p a where pa: "pa = (p, a)" by (cases pa)
  let ?h1 = "round_heap h predicates attributes p a"
  let ?r1 = "round_remaining h predicates attributes p a remaining"
  from Cons.prems(1) pa have dist: "distinct (map snd modules)" by simp
  from Cons.prems(1) pa have "a \<notin> snd ` set modules" by simp
  then have notin: "\<And>q. (q, a) \<notin> set modules"
    by (metis imageI snd_conv)
  have b1: "b < length ?h1" using Cons.prems(2) by (simp add: round_heap_length)
  have ih: "fst (for_modules ?h1 modules predicates attributes ?r1) ! b =
           (if \<exists>path. (path, b) \<in> set modules \<and> satisfies ?h1 predicates path b
            then assign_cell attributes (?h1 ! b) else ?h1 ! b)"
    using Cons.IH [OF dist b1] .
  show ?case
  proof (cases "b = a")
    case True
    have no: "\<not> (\<exists>path. (path, b) \<in> set modules \<and> satisfies ?h1 predicates path b)"
      using True notin by simp
    have "(\<exists>path. (path, b) \<in> set (pa # modules) \<and> satisfies h predicates path b)
         \<longleftrightarrow> satisfies h predicates p a"
    proof
      assume "\<exists>path. (path, b) \<in> set (pa # modules) \<and> satisfies h predicates path b"
      then obtain path where "(path, b) \<in> set (pa # modules)" "satisfies h predicates path b"
        by blast
      with True notin pa show "satisfies h predicates p a" by auto
    next
      assume "satisfies h predicates p a"
      with True pa show "\<exists>path. (path, b) \<in> set (pa # modules) \<and> satisfies h predicates path b"
        by auto
    qed
    moreover have "fst (for_modules ?h1 modules predicates attributes ?r1) ! b = ?h1 ! b"
      using ih no by simp
    moreover have "?h1 ! b = (if satisfies h predicates p a then assign_cell attributes (h ! a) else h ! a)"
      using True Cons.prems(2) by (simp add: round_heap_same)
    ultimately show ?thesis
      unfolding pa for_modules_Cons using True by simp
  next
    case False
    then have same: "?h1 ! b = h ! b" by (simp add: round_heap_other)
    then have sat: "\<And>path. satisfies ?h1 predicates path b = satisfies h predicates path b"
      by (rule satisfies_cong)
    have e1: "(\<exists>path. (path, b) \<in> set modules \<and> satisfies ?h1 predicates path b)
         \<longleftrightarrow> (\<exists>path. (path, b) \<in> set (pa # modules) \<and> satisfies h predicates path b)"
      using False pa sat by auto
    have "fst (for_modules h (pa # modules) predicates attributes remaining) ! b
        = fst (for_modules ?h1 modules predicates attributes ?r1) ! b"
      by (simp only: pa for_modules_Cons)
    also have "\<dots> = (if \<exists>path. (path, b) \<in> set modules \<and> satisfies ?h1 predicates path b
            then assign_cell attributes (?h1 ! b) else ?h1 ! b)"
      by (rule ih)
    also have "\<dots> = (if \<exists>path. (path, b) \<in> set (pa # modules) \<and> satisfies h predicates path b
            then assign_cell attributes (h ! b) else h ! b)"
      by (simp only: e1 same)
    finally show ?thesis .
  qed
qed


lemma found_on_Cons:
  "found_on h ((p, a) # modules) predicates n
     \<longleftrightarrow> (satisfies h predicates p a \<and> hasattr h a n) \<or> found_on h modules predicates n"
  by (auto simp: found_on_def)

lemma found_on_round:
  assumes "a \<notin> snd ` set modules"
  shows "found_on (round_heap h predicates attributes p a) modules predicates n
           = found_on h modules predicates n"
proof -
  let ?h1 = "round_heap h predicates attributes p a"
  have "\<And>q b. (q, b) \<in> set modules \<Longrightarrow>
          (satisfies ?h1 predicates q b \<and> hasattr ?h1 b n) = (satisfies h predicates q b \<and> hasattr h b n)"
  proof -
    fix q b assume "(q, b) \<in> set modules"
    with assms have "b \<noteq> a" by force
    then have same: "?h1 ! b = h ! b" by (rule round_heap_other)
    have "satisfies ?h1 predicates q b = satisfies h predicates q b"
      using same by (rule satisfies_cong)
    moreover have "hasattr ?h1 b n = hasattr h b n"
      using round_heap_length same by (rule hasattr_cong)
    ultimately show "(satisfies ?h1 predicates q b \<and> hasattr ?h1 b n)
        = (satisfies h predicates q b \<and> hasattr h b n)"
      by simp
  qed
  then show ?thesis unfolding found_on_def by blast
qed

lemma for_modules_snd:
  assumes "distinct (map snd modules)"
  shows "snd (for_modules h modules predicates attributes remaining)
           = remaining - {n \<in> fst ` set attributes. found_on h modules predicates n}"
  using assms
proof (induction modules arbitrary: h remaining)
  case Nil
  then show ?case by (simp add: found_on_def)
next
  case (Cons pa modules)
  obtain p a where pa: "pa = (p, a)" by (cases pa)
  let ?h1 = "round_heap h predicates attributes p a"
  let ?r1 = "round_remaining h predicates attributes p a remaining"
  from Cons.prems pa have dist: "distinct (map snd modules)" and notin: "a \<notin> snd ` set modules"
    by simp_all
  have "snd (for_modules h (pa # modules) predicates attributes remaining)
      = snd (for_modules ?h1 modules predicates attributes ?r1)"
    by (simp only: pa for_modules_Cons)
  also have "\<dots> = ?r1 - {n \<in> fst ` set attributes. found_on ?h1 modules predicates n}"
    by (rule Cons.IH [OF dist])
  also have "\<dots> = ?r1 - {n \<in> fst ` set attributes. found_on h modules predicates n}"
    by (simp only: found_on_round [OF notin])
  also have "\<dots> = remaining - {n \<in> fst ` set attributes. found_on h (pa # modules) predicates n}"
    unfolding pa found_on_Cons round_remaining_def by auto
  finally show ?case .
qed

section \<open>The traversal yields every node once\<close>

lemma emit_addrs_visits:
  "emit_addrs h (map (\<lambda>(key, value). Visit (f key) value) kvs @ stack) = emit_addrs h stack"
  by (induction kvs) (auto split: prod.splits)

lemma node_addr_Some: "node_addr h v = Some a \<Longrightarrow> v = PRef a \<and> a < length h"
  by (auto simp: node_addr_def lookup_def split: val.splits option.splits if_splits cell.splits)

lemma iter_graph_stack_distinct:
  "distinct (emit_addrs h stack) \<Longrightarrow> set (emit_addrs h stack) \<subseteq> visited \<Longrightarrow>
     distinct (node_addrs h (iter_graph_stack h visited stack))
     \<and> set (node_addrs h (iter_graph_stack h visited stack)) \<subseteq> set (emit_addrs h stack) \<union> - visited"
proof (induction h visited stack rule: iter_graph_stack.induct)
  case (1 h visited)
  then show ?case by simp
next
  case (2 h visited path node stack)
  show ?case
  proof (cases "node_addr h node")
    case None
    with 2 show ?thesis by simp
  next
    case (Some a)
    with "2.prems" have d: "distinct (emit_addrs h stack)" and s: "set (emit_addrs h stack) \<subseteq> visited"
      and a: "a \<notin> set (emit_addrs h stack)" "a \<in> visited"
      by simp_all
    from "2.IH" [OF d s] have ih: "distinct (node_addrs h (iter_graph_stack h visited stack))"
      "set (node_addrs h (iter_graph_stack h visited stack)) \<subseteq> set (emit_addrs h stack) \<union> - visited"
      by simp_all
    from ih(2) a have "a \<notin> set (node_addrs h (iter_graph_stack h visited stack))" by blast
    with ih Some show ?thesis by auto
  qed
next
  case (3 h visited path node stack)
  from "3.prems" have d: "distinct (emit_addrs h stack)" and s: "set (emit_addrs h stack) \<subseteq> visited"
    by simp_all
  show ?case
  proof (cases "node_addr h node")
    case None
    with "3.IH"(1) [OF None d s] show ?thesis by simp
  next
    case (Some a)
    show ?thesis
    proof (cases "a \<in> visited")
      case True
      with "3.IH"(2) [OF Some True d s] Some show ?thesis by simp
    next
      case False
      let ?st = "map (\<lambda>(key, value). Visit (path @ [key]) value) (node_dict h a) @ Emit path node # stack"
      have e: "emit_addrs h ?st = a # emit_addrs h stack"
        using Some by (simp add: emit_addrs_visits)
      have d': "distinct (emit_addrs h ?st)" using e d s False by auto
      have s': "set (emit_addrs h ?st) \<subseteq> insert a visited" using e s by auto
      from "3.IH"(3) [OF Some False d' s']
      have "distinct (node_addrs h (iter_graph_stack h (insert a visited) ?st))"
        "set (node_addrs h (iter_graph_stack h (insert a visited) ?st))
           \<subseteq> set (emit_addrs h ?st) \<union> - insert a visited"
        by simp_all
      moreover have "iter_graph_stack h visited (Visit path node # stack)
          = iter_graph_stack h (insert a visited) ?st"
        using Some False by simp
      ultimately show ?thesis using e False by auto
    qed
  qed
qed

lemma map_snd_iter_modules:
  "map snd [(path, a). (path, PRef a) \<leftarrow> ys, is_Module h (PRef a)]
     = filter (module_at h) (node_addrs h ys)"
proof (induction ys)
  case Nil
  then show ?case by simp
next
  case (Cons pv ys)
  obtain p v where pv: "pv = (p, v)" by (cases pv)
  show ?case
  proof (cases "node_addr h v")
    case None
    then have "\<not> is_Module h v"
      by (auto simp: node_addr_def is_Module_def split: val.splits option.splits cell.splits)
    with None Cons pv show ?thesis by (cases v) simp_all
  next
    case (Some a)
    then have "v = PRef a" by (simp add: node_addr_Some)
    with Some Cons pv show ?thesis by (simp add: module_at_def)
  qed
qed

lemma iter_modules_distinct: "distinct (map snd (iter_modules h self))"
proof -
  have "distinct (node_addrs h (iter_graph h (PRef self)))"
    using iter_graph_stack_distinct [of h "[Visit [] (PRef self)]" "{}"]
    by (simp add: iter_graph_def)
  then show ?thesis
    unfolding iter_modules_def map_snd_iter_modules by simp
qed

lemma iter_modules_module_at: "(path, a) \<in> set (iter_modules h self) \<Longrightarrow> module_at h a"
  by (auto simp: iter_modules_def module_at_def split: val.splits if_splits)

text \<open>
  The model of the traversal yields the modules of the docstrings' \<^verbatim>\<open>Block\<close> in the
  order that the docstrings of \<^verbatim>\<open>iter_modules\<close> and \<^verbatim>\<open>iter_children\<close> print.
\<close>

lemma doc_block_iter_modules:
  "map (\<lambda>(path, a). (path, type_name doc_block (PRef a))) (iter_modules doc_block 0) =
     [([''batch_norm''], ''BatchNorm''), ([''dropout''], ''Dropout''), ([''linear''], ''Linear''),
      ([''submodule'', ''linear1''], ''Linear''), ([''submodule'', ''linear2''], ''Linear''),
      ([''submodule''], ''SubModule''), ([], ''Block'')]"
  by code_simp

lemma doc_block_iter_children:
  "map (\<lambda>(key, a). (key, type_name doc_block (PRef a))) (iter_children doc_block 0) =
     [(''batch_norm'', ''BatchNorm''), (''dropout'', ''Dropout''), (''linear'', ''Linear''),
      (''submodule'', ''SubModule'')]"
  by code_simp

section \<open>What \<^verbatim>\<open>set_attributes\<close> does to the heap\<close>

lemma set_attributes_unfold:
  "set_attributes h self filters raise_if_not_found attributes =
     (if snd (for_modules h (iter_modules h self) (predicates_of filters) attributes
                (set (map fst attributes))) \<noteq> {} \<and> raise_if_not_found
      then Some (ValueError ''Could not find at least one instance of the following attributes'')
      else None,
      fst (for_modules h (iter_modules h self) (predicates_of filters) attributes
                (set (map fst attributes))))"
  by (simp add: set_attributes_def predicates_of_def Let_def split: prod.splits)

lemma found_on_selected:
  "found_on h (iter_modules h self) (predicates_of filters) n
     \<longleftrightarrow> (\<exists>a \<in> selected h self filters. hasattr h a n)"
  by (auto simp: found_on_def selected_def)

lemma set_attributes_error:
  "fst (set_attributes h self filters raise_if_not_found attributes) =
     (if raise_if_not_found
         \<and> (\<exists>n \<in> fst ` set attributes. \<forall>a \<in> selected h self filters. \<not> hasattr h a n)
      then Some (ValueError ''Could not find at least one instance of the following attributes'')
      else None)"
proof -
  have "snd (for_modules h (iter_modules h self) (predicates_of filters) attributes
                (set (map fst attributes)))
      = fst ` set attributes - {n \<in> fst ` set attributes.
           found_on h (iter_modules h self) (predicates_of filters) n}"
    using for_modules_snd [OF iter_modules_distinct] by simp
  also have "\<dots> = {n \<in> fst ` set attributes. \<forall>a \<in> selected h self filters. \<not> hasattr h a n}"
    unfolding found_on_selected by blast
  finally show ?thesis
    unfolding set_attributes_unfold by auto
qed

lemma set_attributes_length:
  "length (snd (set_attributes h self filters raise_if_not_found attributes)) = length h"
  by (simp add: set_attributes_unfold for_modules_length)

lemma set_attributes_nth:
  assumes "a < length h"
  shows "snd (set_attributes h self filters raise_if_not_found attributes) ! a =
           (if a \<in> selected h self filters then assign_cell attributes (h ! a) else h ! a)"
proof -
  have "snd (set_attributes h self filters raise_if_not_found attributes) ! a
      = fst (for_modules h (iter_modules h self) (predicates_of filters) attributes
                (set (map fst attributes))) ! a"
    by (simp add: set_attributes_unfold)
  also have "\<dots> = (if \<exists>path. (path, a) \<in> set (iter_modules h self)
                        \<and> satisfies h (predicates_of filters) path a
            then assign_cell attributes (h ! a) else h ! a)"
    by (rule for_modules_nth [OF iter_modules_distinct assms])
  also have "\<dots> = (if a \<in> selected h self filters then assign_cell attributes (h ! a) else h ! a)"
    by (simp add: selected_def)
  finally show ?thesis .
qed

lemma set_attributes_raise_independent:
  "snd (set_attributes h self filters r attributes) = snd (set_attributes h self filters r' attributes)"
  by (simp add: set_attributes_unfold)

lemma set_attributes_lookup:
  "lookup (snd (set_attributes h self filters r attributes)) a =
     (if a \<in> selected h self filters then map_option (assign_cell attributes) (lookup h a)
      else lookup h a)"
  using set_attributes_nth [of a h self filters r attributes]
    set_attributes_length [of h self filters r attributes]
  by (simp add: lookup_def)

lemma object_getattr_assign_cell:
  "object_getattr (assign_cell attributes c) n =
     (if object_getattr c n \<noteq> None then
        (case map_of (rev attributes) n of Some v \<Rightarrow> Some v | None \<Rightarrow> object_getattr c n)
      else None)"
proof (cases c)
  case (Variable t r)
  then show ?thesis by (simp add: assign_cell_def object_getattr_def)
next
  case (Object cl m cas kvs)
  let ?P = "\<lambda>name. class_getattr (Object cl m cas kvs) name \<noteq> None"
  let ?kvs' = "assign_existing ?P kvs attributes"
  have ac: "assign_cell attributes (Object cl m cas kvs) = Object cl m cas ?kvs'"
    by (simp add: assign_cell_def)
  have cg: "class_getattr (Object cl m cas ?kvs') n = class_getattr (Object cl m cas kvs) n"
    by (rule class_getattr_kvs)
  have og: "object_getattr (Object cl m cas ?kvs') n =
      (case map_of ?kvs' n of Some v \<Rightarrow> Some v | None \<Rightarrow> class_getattr (Object cl m cas kvs) n)"
    by (simp add: object_getattr_def class_getattr_def split: option.splits)
  show ?thesis
  proof (cases "n \<in> fst ` set kvs \<or> ?P n")
    case True
    then have has: "object_getattr (Object cl m cas kvs) n \<noteq> None"
      using object_hasattr_iff [of cl m cas kvs n] by blast
    have "map_of ?kvs' n =
        (case map_of (rev attributes) n of Some v \<Rightarrow> Some v | None \<Rightarrow> map_of kvs n)"
      using True by (simp add: map_of_assign_existing)
    then have "object_getattr (Object cl m cas ?kvs') n =
        (case map_of (rev attributes) n of Some v \<Rightarrow> Some v
         | None \<Rightarrow> object_getattr (Object cl m cas kvs) n)"
      unfolding og by (simp add: object_getattr_def split: option.splits)
    with has show ?thesis unfolding Object ac by simp
  next
    case False
    then have has: "object_getattr (Object cl m cas kvs) n = None"
      using object_hasattr_iff [of cl m cas kvs n] by blast
    have "map_of ?kvs' n = None"
      using False map_of_assign_existing [of ?P kvs attributes n] by simp
    moreover have "class_getattr (Object cl m cas kvs) n = None" using False by simp
    ultimately have "object_getattr (Object cl m cas ?kvs') n = None"
      unfolding og by simp
    with has show ?thesis unfolding Object ac by simp
  qed
qed

lemma set_attributes_getattr:
  "getattr (snd (set_attributes h self filters r attributes)) a n =
     (if a \<in> selected h self filters \<and> hasattr h a n then
        (case map_of (rev attributes) n of Some v \<Rightarrow> Some v | None \<Rightarrow> getattr h a n)
      else getattr h a n)"
proof (cases "lookup h a")
  case None
  then show ?thesis by (simp add: getattr_def hasattr_def set_attributes_lookup)
next
  case (Some c)
  show ?thesis
  proof (cases "a \<in> selected h self filters")
    case True
    with Some have "getattr (snd (set_attributes h self filters r attributes)) a n
        = object_getattr (assign_cell attributes c) n"
      by (simp add: getattr_def set_attributes_lookup)
    also have "\<dots> = (if object_getattr c n \<noteq> None then
        (case map_of (rev attributes) n of Some v \<Rightarrow> Some v | None \<Rightarrow> object_getattr c n)
      else None)"
      by (rule object_getattr_assign_cell)
    also have "\<dots> = (if a \<in> selected h self filters \<and> hasattr h a n then
        (case map_of (rev attributes) n of Some v \<Rightarrow> Some v | None \<Rightarrow> getattr h a n)
      else getattr h a n)"
      using True Some by (simp add: hasattr_def getattr_def split: option.splits)
    finally show ?thesis .
  next
    case False
    then show ?thesis by (simp add: getattr_def set_attributes_lookup)
  qed
qed

lemma set_attributes_hasattr:
  "hasattr (snd (set_attributes h self filters r attributes)) a n = hasattr h a n"
proof (cases "a \<in> selected h self filters \<and> hasattr h a n")
  case True
  then have "getattr h a n \<noteq> None" by (simp add: hasattr_def)
  with True show ?thesis
    unfolding hasattr_def [of "snd (set_attributes h self filters r attributes)"]
      set_attributes_getattr
    by (simp split: option.splits)
next
  case False
  then show ?thesis
    unfolding hasattr_def [of "snd (set_attributes h self filters r attributes)"]
      set_attributes_getattr
    by (auto simp: hasattr_def)
qed

lemma map_of_rev_distinct:
  "distinct (map fst attributes) \<Longrightarrow> (n, v) \<in> set attributes \<Longrightarrow> map_of (rev attributes) n = Some v"
  by (rule map_of_is_SomeI) (simp_all add: rev_map [symmetric])

lemma set_attributes_module_at:
  "module_at (snd (set_attributes h self filters r attributes)) a = module_at h a"
  unfolding module_at_def is_Module_def val.case set_attributes_lookup
  by (auto simp: assign_cell_def split: option.splits cell.splits)

section \<open>\<^verbatim>\<open>set_attributes\<close>, \<^verbatim>\<open>train\<close> and \<^verbatim>\<open>eval\<close>: the claims\<close>

lemma block_modules:
  "iter_modules block 0 = [([''batch_norm''], 3), ([''dropout''], 2), ([''linear''], 1), ([], 0)]"
  by code_simp

lemma block_selected_Dropout: "selected block 0 [FType ''Dropout''] = {2}"
proof -
  have "\<And>path a. (path, a) \<in> set (iter_modules block 0)
          \<and> satisfies block (predicates_of [FType ''Dropout'']) path a
        \<longleftrightarrow> path = [''dropout''] \<and> a = 2"
    unfolding block_modules
    by (auto simp: satisfies_def predicates_of_def block_def)
  then show ?thesis by (simp add: selected_def)
qed

lemma selected_no_filter:
  "selected h self [] = snd ` set (iter_modules h self)"
  by (force simp: selected_def predicates_of_def satisfies_def image_iff)

lemma mode_getattr:
  assumes "n = ''deterministic'' \<or> n = ''use_running_average''"
    and "\<not> repeated_keyword attributes"
    and "(path, a) \<in> set (iter_modules h self)"
    and "hasattr h a n"
  shows "getattr (snd (set_attributes h self [] False
            ((''deterministic'', PBool b) # (''use_running_average'', PBool b) # attributes))) a n
         = Some (PBool b)"
proof -
  from assms(3) have sel: "a \<in> selected h self []"
    unfolding selected_no_filter by force
  from assms(1,2) have "n \<notin> fst ` set attributes"
    by (auto simp: repeated_keyword_def)
  then have "map_of (rev attributes) n = None"
    by (simp add: map_of_eq_None_iff)
  then have "map_of (rev ((''deterministic'', PBool b) # (''use_running_average'', PBool b)
      # attributes)) n = Some (PBool b)"
    using assms(1) by (auto simp: map_add_def)
  then show ?thesis
    unfolding set_attributes_getattr using sel assms(4) by simp
qed

text \<open>
  Claim C3.  An object has an attribute when \<^verbatim>\<open>hasattr\<close> is true: the name is in its
  instance dictionary or its class provides it.  \<^verbatim>\<open>set_attributes\<close> works in place.
  Whether it raises or not, the heap has the same objects afterwards (none is created),
  each is a module exactly if it was one, and each has exactly the attributes it had
  (\<^verbatim>\<open>hasattr\<close> is as before for every name: no attribute is created).  On every module
  that \<^verbatim>\<open>iter_modules\<close> yields and that satisfies at least one filter predicate, every
  keyword attribute that the module has holds the given value afterwards, on that same
  object.  The keyword attributes are a dictionary: their names are distinct.
\<close>

theorem set_attributes_in_place:
  assumes "set_attributes h self filters raise_if_not_found attributes = (err, h')"
    and "distinct (map fst attributes)"
  shows "length h' = length h
     \<and> (\<forall>a. module_at h' a = module_at h a)
     \<and> (\<forall>a n. hasattr h' a n = hasattr h a n)
     \<and> (\<forall>a \<in> selected h self filters. \<forall>(n, v) \<in> set attributes.
           hasattr h a n \<longrightarrow> getattr h' a n = Some v)"
proof -
  from assms(1) have h': "h' = snd (set_attributes h self filters raise_if_not_found attributes)"
    by simp
  have "\<forall>a \<in> selected h self filters. \<forall>(n, v) \<in> set attributes.
           hasattr h a n \<longrightarrow> getattr h' a n = Some v"
  proof (intro ballI, clarify)
    fix a n v
    assume "a \<in> selected h self filters" "(n, v) \<in> set attributes" "hasattr h a n"
    then show "getattr h' a n = Some v"
      unfolding h' set_attributes_getattr
      by (simp add: map_of_rev_distinct [OF assms(2)])
  qed
  then show ?thesis
    unfolding h'
    by (simp only: set_attributes_length set_attributes_module_at set_attributes_hasattr simp_thms)
qed

theorem set_attributes_in_place_witness:
  "set_attributes block 0 [FType ''Dropout''] True [(''deterministic'', PBool False)]
     = (None, block[2 := Object ''Dropout'' True []
                       [(''rate'', PInt 5), (''deterministic'', PBool False)]])
   \<and> length (block[2 := Object ''Dropout'' True []
                       [(''rate'', PInt 5), (''deterministic'', PBool False)]]) = length block
   \<and> getattr (block[2 := Object ''Dropout'' True []
                       [(''rate'', PInt 5), (''deterministic'', PBool False)]]) 2 ''deterministic''
       = Some (PBool False)
   \<and> getattr (snd (set_attributes block 0 [] True [(''sow'', PInt 5)])) 1 ''sow''
       = Some (PInt 5)"
proof -
  let ?h' = "block[2 := Object ''Dropout'' True []
                       [(''rate'', PInt 5), (''deterministic'', PBool False)]]"
  have run: "set_attributes block 0 [FType ''Dropout''] True [(''deterministic'', PBool False)]
     = (None, ?h')"
    by code_simp
  have dist: "distinct (map fst [(''deterministic'', PBool False)])" by simp
  note t = set_attributes_in_place [OF run dist]
  have sel: "2 \<in> selected block 0 [FType ''Dropout'']" by (simp add: block_selected_Dropout)
  have has: "hasattr block 2 ''deterministic''" by code_simp
  from t have "length ?h' = length block" by (rule conjunct1)
  moreover from t sel has have "getattr ?h' 2 ''deterministic'' = Some (PBool False)"
    by simp
  moreover have "getattr (snd (set_attributes block 0 [] True [(''sow'', PInt 5)])) 1 ''sow''
       = Some (PInt 5)"
  proof -
    let ?r = "set_attributes block 0 [] True [(''sow'', PInt 5)]"
    have run2: "?r = (fst ?r, snd ?r)" by simp
    have dist2: "distinct (map fst [(''sow'', PInt 5)])" by simp
    note t2 = set_attributes_in_place [OF run2 dist2]
    have sel2: "1 \<in> selected block 0 []"
      unfolding selected_no_filter block_modules by simp
    have has2: "hasattr block 1 ''sow''" by code_simp
    from t2 sel2 has2 show ?thesis by simp
  qed
  ultimately show ?thesis using run by simp
qed

text \<open>
  Claim C4.  \<^verbatim>\<open>set_attributes\<close> changes nothing else.  An object that is not a module
  yielded by \<^verbatim>\<open>iter_modules\<close> and satisfying a filter predicate is left as it was, with
  all its attributes; and on every object an attribute whose name is not among the
  keywords keeps its value.
\<close>

theorem set_attributes_frame:
  assumes "set_attributes h self filters raise_if_not_found attributes = (err, h')"
  shows "(\<forall>a. a \<notin> selected h self filters \<longrightarrow> lookup h' a = lookup h a)
     \<and> (\<forall>a n. n \<notin> fst ` set attributes \<longrightarrow> getattr h' a n = getattr h a n)"
proof -
  from assms have h': "h' = snd (set_attributes h self filters raise_if_not_found attributes)"
    by simp
  have "\<And>n. n \<notin> fst ` set attributes \<Longrightarrow> map_of (rev attributes) n = None"
    by (simp add: map_of_eq_None_iff)
  then show ?thesis
    unfolding h' by (simp add: set_attributes_lookup set_attributes_getattr)
qed

theorem set_attributes_frame_witness:
  "lookup (snd (set_attributes block 0 [FType ''Dropout''] True
                  [(''deterministic'', PBool False)])) 3 = lookup block 3
   \<and> getattr (snd (set_attributes block 0 [FType ''Dropout''] True
                  [(''deterministic'', PBool False)])) 2 ''rate'' = getattr block 2 ''rate''"
proof -
  let ?r = "set_attributes block 0 [FType ''Dropout''] True [(''deterministic'', PBool False)]"
  have run: "?r = (fst ?r, snd ?r)" by simp
  note t = set_attributes_frame [OF run]
  have sel: "3 \<notin> selected block 0 [FType ''Dropout'']" by (simp add: block_selected_Dropout)
  have key: "''rate'' \<notin> fst ` set [(''deterministic'', PBool False)]" by simp
  from t sel have "lookup (snd ?r) 3 = lookup block 3" by blast
  moreover from t key have "getattr (snd ?r) 2 ''rate'' = getattr block 2 ''rate''" by blast
  ultimately show ?thesis by (rule conjI)
qed

text \<open>
  Claim C8.  With \<^verbatim>\<open>raise_if_not_found=True\<close>, \<^verbatim>\<open>set_attributes\<close> raises exactly when
  one of the keyword names is an attribute of none of the selected modules (neither in
  the instance dictionary nor through the class), and what it raises is
  \<^verbatim>\<open>ValueError\<close>.  The heap it leaves is the one that the same call with
  \<^verbatim>\<open>raise_if_not_found=False\<close> leaves: the error comes after the loop and undoes
  nothing, so every keyword attribute that a selected module has holds the given value.
\<close>

theorem set_attributes_raises_iff:
  assumes "set_attributes h self filters True attributes = (err, h')"
  shows "(err \<noteq> None \<longleftrightarrow>
            (\<exists>n \<in> fst ` set attributes. \<forall>a \<in> selected h self filters. \<not> hasattr h a n))
     \<and> (\<forall>e. err = Some e \<longrightarrow> (\<exists>msg. e = ValueError msg))
     \<and> h' = snd (set_attributes h self filters False attributes)
     \<and> (distinct (map fst attributes) \<longrightarrow>
          (\<forall>a \<in> selected h self filters. \<forall>(n, v) \<in> set attributes.
             hasattr h a n \<longrightarrow> getattr h' a n = Some v))"
proof -
  from assms have err: "err = fst (set_attributes h self filters True attributes)"
    and h': "h' = snd (set_attributes h self filters True attributes)"
    by simp_all
  have 1: "err \<noteq> None \<longleftrightarrow>
            (\<exists>n \<in> fst ` set attributes. \<forall>a \<in> selected h self filters. \<not> hasattr h a n)"
    unfolding err set_attributes_error by simp
  have 2: "\<forall>e. err = Some e \<longrightarrow> (\<exists>msg. e = ValueError msg)"
    unfolding err set_attributes_error by simp
  have 3: "h' = snd (set_attributes h self filters False attributes)"
    unfolding h' by (rule set_attributes_raise_independent)
  have 4: "distinct (map fst attributes) \<longrightarrow>
          (\<forall>a \<in> selected h self filters. \<forall>(n, v) \<in> set attributes.
             hasattr h a n \<longrightarrow> getattr h' a n = Some v)"
  proof (intro impI ballI, clarify)
    fix a n v
    assume "distinct (map fst attributes)" "a \<in> selected h self filters"
      "(n, v) \<in> set attributes" "hasattr h a n"
    then show "getattr h' a n = Some v"
      unfolding h' set_attributes_getattr
      by (simp add: map_of_rev_distinct)
  qed
  from 1 2 3 4 show ?thesis by (intro conjI)
qed

theorem set_attributes_raises_iff_witness:
  "fst (set_attributes block 0 [FType ''Dropout''] True
          [(''deterministic'', PBool False), (''use_running_average'', PBool True)]) \<noteq> None
   \<and> getattr (snd (set_attributes block 0 [FType ''Dropout''] True
          [(''deterministic'', PBool False), (''use_running_average'', PBool True)]))
        2 ''deterministic'' = Some (PBool False)
   \<and> fst (set_attributes block 0 [] True
          [(''deterministic'', PBool False), (''use_running_average'', PBool True)]) = None
   \<and> fst (set_attributes block 0 [] True [(''sow'', PInt 5)]) = None"
proof -
  let ?as = "[(''deterministic'', PBool False), (''use_running_average'', PBool True)]"
  let ?r = "set_attributes block 0 [FType ''Dropout''] True ?as"
  let ?q = "set_attributes block 0 [] True ?as"
  have run: "?r = (fst ?r, snd ?r)" by simp
  note t = set_attributes_raises_iff [OF run]
  have sel: "2 \<in> selected block 0 [FType ''Dropout'']" by (simp add: block_selected_Dropout)
  have has: "hasattr block 2 ''deterministic''" by code_simp
  have "\<not> hasattr block 2 ''use_running_average''" by code_simp
  then have "\<exists>n \<in> fst ` set ?as. \<forall>a \<in> selected block 0 [FType ''Dropout'']. \<not> hasattr block a n"
    by (simp add: block_selected_Dropout)
  with t have 1: "fst ?r \<noteq> None" by blast
  have "distinct (map fst ?as)" by simp
  with t have "\<forall>a \<in> selected block 0 [FType ''Dropout'']. \<forall>(n, v) \<in> set ?as.
             hasattr block a n \<longrightarrow> getattr (snd ?r) a n = Some v"
    by blast
  with sel has have 2: "getattr (snd ?r) 2 ''deterministic'' = Some (PBool False)"
    by simp
  have run': "?q = (fst ?q, snd ?q)" by simp
  note t' = set_attributes_raises_iff [OF run']
  have s2: "2 \<in> selected block 0 []" and s3: "3 \<in> selected block 0 []"
    unfolding selected_no_filter block_modules by simp_all
  have "hasattr block 3 ''use_running_average''" by code_simp
  with s2 s3 has have "\<not> (\<exists>n \<in> fst ` set ?as. \<forall>a \<in> selected block 0 []. \<not> hasattr block a n)"
    by auto
  with t' have 3: "fst ?q = None" by blast
  let ?s = "set_attributes block 0 [] True [(''sow'', PInt 5)]"
  have run'': "?s = (fst ?s, snd ?s)" by simp
  note t'' = set_attributes_raises_iff [OF run'']
  have "hasattr block 2 ''sow''" by code_simp
  with s2 have "\<not> (\<exists>n \<in> fst ` set [(''sow'', PInt 5)]. \<forall>a \<in> selected block 0 []. \<not> hasattr block a n)"
    by auto
  with t'' have 4: "fst ?s = None" by blast
  from 1 2 3 4 show ?thesis by (intro conjI)
qed

text \<open>
  Claim C1.  \<^verbatim>\<open>train\<close> and \<^verbatim>\<open>eval\<close> (with further keyword attributes or none, under
  other names than those they pass themselves) do not raise, whether or not any module
  has the attributes.  On every module that \<^verbatim>\<open>iter_modules\<close> yields, each of
  \<^verbatim>\<open>deterministic\<close> and \<^verbatim>\<open>use_running_average\<close> that the module has is \<^verbatim>\<open>False\<close>
  after \<^verbatim>\<open>train\<close> and \<^verbatim>\<open>True\<close> after \<^verbatim>\<open>eval\<close>, and a module that lacks one of them
  still lacks it.  A module has an attribute when \<^verbatim>\<open>hasattr\<close> is true, also when only
  its class provides the name, as with a class-level default.
\<close>

theorem train_eval_modes:
  assumes "\<not> repeated_keyword attributes"
  shows "fst (train h self attributes) = None \<and> fst (eval h self attributes) = None
     \<and> (\<forall>(path, a) \<in> set (iter_modules h self).
          \<forall>n \<in> {''deterministic'', ''use_running_average''}.
            (hasattr h a n \<longrightarrow>
               getattr (snd (train h self attributes)) a n = Some (PBool False)
               \<and> getattr (snd (eval h self attributes)) a n = Some (PBool True))
            \<and> (\<not> hasattr h a n \<longrightarrow>
               \<not> hasattr (snd (train h self attributes)) a n
               \<and> \<not> hasattr (snd (eval h self attributes)) a n))"
proof (intro conjI ballI, goal_cases)
  case 1
  show ?case using assms by (simp add: train_def set_attributes_error)
next
  case 2
  show ?case using assms by (simp add: eval_def set_attributes_error)
next
  case (3 pa)
  obtain path a where pa: "pa = (path, a)" by (cases pa)
  have "\<forall>n \<in> {''deterministic'', ''use_running_average''}.
            (hasattr h a n \<longrightarrow>
               getattr (snd (train h self attributes)) a n = Some (PBool False)
               \<and> getattr (snd (eval h self attributes)) a n = Some (PBool True))
            \<and> (\<not> hasattr h a n \<longrightarrow>
               \<not> hasattr (snd (train h self attributes)) a n
               \<and> \<not> hasattr (snd (eval h self attributes)) a n)"
  proof
    fix n assume "n \<in> {''deterministic'', ''use_running_average''}"
    then have n: "n = ''deterministic'' \<or> n = ''use_running_average''" by simp
    have mem: "(path, a) \<in> set (iter_modules h self)" using 3 pa by simp
    have "hasattr h a n \<longrightarrow>
               getattr (snd (train h self attributes)) a n = Some (PBool False)
               \<and> getattr (snd (eval h self attributes)) a n = Some (PBool True)"
      using assms mode_getattr [OF n assms mem] by (simp add: train_def eval_def)
    moreover have "\<not> hasattr h a n \<longrightarrow>
               \<not> hasattr (snd (train h self attributes)) a n
               \<and> \<not> hasattr (snd (eval h self attributes)) a n"
      using assms by (simp add: train_def eval_def set_attributes_hasattr)
    ultimately show "(hasattr h a n \<longrightarrow>
               getattr (snd (train h self attributes)) a n = Some (PBool False)
               \<and> getattr (snd (eval h self attributes)) a n = Some (PBool True))
            \<and> (\<not> hasattr h a n \<longrightarrow>
               \<not> hasattr (snd (train h self attributes)) a n
               \<and> \<not> hasattr (snd (eval h self attributes)) a n)"
      by (rule conjI)
  qed
  then show ?case unfolding pa by simp
qed

theorem train_eval_modes_witness:
  "fst (train block 0 []) = None \<and> fst (eval block 0 []) = None
   \<and> getattr (snd (train block 0 [])) 2 ''deterministic'' = Some (PBool False)
   \<and> getattr (snd (eval block 0 [])) 3 ''use_running_average'' = Some (PBool True)
   \<and> \<not> hasattr (snd (train block 0 [])) 1 ''deterministic''"
proof -
  have nr: "\<not> repeated_keyword []" by (simp add: repeated_keyword_def)
  note t = train_eval_modes [OF nr, of block 0]
  have m1: "([''linear''], 1) \<in> set (iter_modules block 0)"
    and m2: "([''dropout''], 2) \<in> set (iter_modules block 0)"
    and m3: "([''batch_norm''], 3) \<in> set (iter_modules block 0)"
    unfolding block_modules by simp_all
  have h2: "hasattr block 2 ''deterministic''" by code_simp
  have h3: "hasattr block 3 ''use_running_average''" by code_simp
  have h1: "\<not> hasattr block 1 ''deterministic''" by code_simp
  from t have a: "fst (train block 0 []) = None" "fst (eval block 0 []) = None" by simp_all
  from t m2 h2 have b: "getattr (snd (train block 0 [])) 2 ''deterministic'' = Some (PBool False)"
    by fastforce
  from t m3 h3 have c: "getattr (snd (eval block 0 [])) 3 ''use_running_average'' = Some (PBool True)"
    by fastforce
  from t m1 h1 have d: "\<not> hasattr (snd (train block 0 [])) 1 ''deterministic''"
    by fastforce
  from a b c d show ?thesis by (intro conjI)
qed

section \<open>The traversal yields what is reachable\<close>

lemma set_node_dict: "set (node_dict h a) = set (vars h a)"
  by (simp add: node_dict_def)

text \<open>Soundness: what is yielded is reached by its path.\<close>

lemma iter_graph_stack_sound:
  "\<forall>f \<in> set stack. path_to h root (frame_path f) (frame_node f) \<Longrightarrow>
     (path, node) \<in> set (iter_graph_stack h visited stack) \<Longrightarrow> path_to h root path node"
proof (induction h visited stack rule: iter_graph_stack.induct)
  case (1 h visited)
  then show ?case by simp
next
  case (2 h visited p v stack)
  then show ?case by auto
next
  case (3 h visited p v stack)
  from "3.prems"(1) have pv: "path_to h root p v"
    and rest: "\<forall>f \<in> set stack. path_to h root (frame_path f) (frame_node f)"
    by simp_all
  show ?case
  proof (cases "node_addr h v")
    case None
    with "3.prems"(2) have "(path, node) = (p, v) \<or> (path, node) \<in> set (iter_graph_stack h visited stack)"
      by simp
    with pv "3.IH"(1) [OF None rest] show ?thesis by auto
  next
    case (Some a)
    show ?thesis
    proof (cases "a \<in> visited")
      case True
      with Some "3.prems"(2) have "(path, node) \<in> set (iter_graph_stack h visited stack)" by simp
      with "3.IH"(2) [OF Some True rest] show ?thesis .
    next
      case False
      let ?st = "map (\<lambda>(key, value). Visit (p @ [key]) value) (node_dict h a) @ Emit p v # stack"
      have "\<forall>f \<in> set ?st. path_to h root (frame_path f) (frame_node f)"
      proof
        fix f assume "f \<in> set ?st"
        then consider (child) k w where "(k, w) \<in> set (node_dict h a)" "f = Visit (p @ [k]) w"
          | (emit) "f = Emit p v" | (old) "f \<in> set stack"
          by auto
        then show "path_to h root (frame_path f) (frame_node f)"
        proof cases
          case child
          then have "(k, w) \<in> set (vars h a)" by (simp add: set_node_dict)
          with pv Some have "path_to h root (p @ [k]) w" by (rule path_to.attr)
          with child show ?thesis by simp
        next
          case emit
          with pv show ?thesis by simp
        next
          case old
          with rest show ?thesis by blast
        qed
      qed
      moreover have "(path, node) \<in> set (iter_graph_stack h (insert a visited) ?st)"
        using Some False "3.prems"(2) by simp
      ultimately show ?thesis using "3.IH"(3) [OF Some False] by blast
    qed
  qed
qed

lemma node_addrs_mem:
  "a \<in> set (node_addrs h ys) \<longleftrightarrow> (\<exists>path node. (path, node) \<in> set ys \<and> node_addr h node = Some a)"
proof (induction ys)
  case Nil
  then show ?case by simp
next
  case (Cons pv ys)
  obtain p v where pv: "pv = (p, v)" by (cases pv)
  show ?case
  proof (cases "node_addr h v")
    case None
    with Cons pv show ?thesis by auto
  next
    case (Some b)
    with Cons pv show ?thesis by auto
  qed
qed

text \<open>
  Every frame of the stack is served: a pending yield is made, and a pending visit of a
  node yields the node unless the node was entered before.
\<close>

lemma iter_graph_stack_serves:
  "f \<in> set stack \<Longrightarrow>
     (case f of
        Emit path node \<Rightarrow> (path, node) \<in> set (iter_graph_stack h visited stack)
      | Visit path node \<Rightarrow>
          (\<forall>a. node_addr h node = Some a \<longrightarrow>
             a \<in> visited \<or> a \<in> set (node_addrs h (iter_graph_stack h visited stack))))"
proof (induction h visited stack arbitrary: f rule: iter_graph_stack.induct)
  case (1 h visited)
  then show ?case by simp
next
  case (2 h visited p v stack)
  show ?case
  proof (cases "f = Emit p v")
    case True
    then show ?thesis by simp
  next
    case False
    with "2.prems" have "f \<in> set stack" by simp
    from "2.IH" [OF this] show ?thesis
      by (cases f) (auto split: option.splits)
  qed
next
  case (3 h visited p v stack)
  show ?case
  proof (cases "node_addr h v")
    case None
    show ?thesis
    proof (cases "f = Visit p v")
      case True
      with None show ?thesis by simp
    next
      case False
      with "3.prems" have "f \<in> set stack" by simp
      from "3.IH"(1) [OF None this] None show ?thesis
        by (cases f) (auto simp: node_addrs_mem)
    qed
  next
    case (Some a)
    show ?thesis
    proof (cases "a \<in> visited")
      case True
      show ?thesis
      proof (cases "f = Visit p v")
        case f: True
        with Some True show ?thesis by simp
      next
        case False
        with "3.prems" have "f \<in> set stack" by simp
        from "3.IH"(2) [OF Some True this] Some True show ?thesis
          by (cases f) auto
      qed
    next
      case False
      let ?st = "map (\<lambda>(key, value). Visit (p @ [key]) value) (node_dict h a) @ Emit p v # stack"
      let ?out = "iter_graph_stack h (insert a visited) ?st"
      have out: "iter_graph_stack h visited (Visit p v # stack) = ?out"
        using Some False by simp
      have "Emit p v \<in> set ?st" by simp
      from "3.IH"(3) [OF Some False this] have "(p, v) \<in> set ?out" by simp
      with Some have a_out: "a \<in> set (node_addrs h ?out)"
        by (auto simp: node_addrs_mem)
      show ?thesis
      proof (cases "f = Visit p v")
        case True
        with Some a_out out show ?thesis by simp
      next
        case False
        with "3.prems" have "f \<in> set ?st" by simp
        from "3.IH"(3) [OF Some \<open>a \<notin> visited\<close> this] a_out out show ?thesis
          by (cases f) auto
      qed
    qed
  qed
qed

text \<open>
  The nodes that the traversal enters are closed under attributes: a node below a node
  that is entered and yielded is yielded too, unless it was entered before.
\<close>

lemma iter_graph_stack_closed:
  "a \<in> set (node_addrs h (iter_graph_stack h visited stack)) \<Longrightarrow> a \<notin> set (emit_addrs h stack)
     \<Longrightarrow> (k, w) \<in> set (vars h a) \<Longrightarrow> node_addr h w = Some c
     \<Longrightarrow> c \<in> visited \<or> c \<in> set (node_addrs h (iter_graph_stack h visited stack))"
proof (induction h visited stack arbitrary: a k w c rule: iter_graph_stack.induct)
  case (1 h visited)
  then show ?case by simp
next
  case (2 h visited p v stack)
  from "2.prems"(2) have ne: "a \<notin> set (emit_addrs h stack)" and nv: "node_addr h v \<noteq> Some a"
    by (auto split: option.splits)
  from "2.prems"(1) nv have "a \<in> set (node_addrs h (iter_graph_stack h visited stack))"
    by (auto split: option.splits)
  from "2.IH" [OF this ne "2.prems"(3,4)]
  show ?case by (auto split: option.splits)
next
  case (3 h visited p v stack)
  from "3.prems"(2) have ne: "a \<notin> set (emit_addrs h stack)" by simp
  show ?case
  proof (cases "node_addr h v")
    case None
    with "3.prems"(1) have "a \<in> set (node_addrs h (iter_graph_stack h visited stack))" by simp
    from "3.IH"(1) [OF None this ne "3.prems"(3,4)] None show ?thesis by simp
  next
    case (Some b)
    show ?thesis
    proof (cases "b \<in> visited")
      case True
      with Some "3.prems"(1) have "a \<in> set (node_addrs h (iter_graph_stack h visited stack))" by simp
      from "3.IH"(2) [OF Some True this ne "3.prems"(3,4)] Some True show ?thesis by simp
    next
      case False
      let ?st = "map (\<lambda>(key, value). Visit (p @ [key]) value) (node_dict h b) @ Emit p v # stack"
      let ?out = "iter_graph_stack h (insert b visited) ?st"
      have out: "iter_graph_stack h visited (Visit p v # stack) = ?out"
        using Some False by simp
      have "Emit p v \<in> set ?st" by simp
      from iter_graph_stack_serves [OF this, of h "insert b visited"]
      have "(p, v) \<in> set ?out" by simp
      with Some have b_out: "b \<in> set (node_addrs h ?out)"
        by (auto simp: node_addrs_mem)
      have a_out: "a \<in> set (node_addrs h ?out)" using "3.prems"(1) out by simp
      have "c \<in> insert b visited \<or> c \<in> set (node_addrs h ?out)"
      proof (cases "a = b")
        case True
        with "3.prems"(3) have "(k, w) \<in> set (node_dict h b)" by (simp add: set_node_dict)
        then have "Visit (p @ [k]) w \<in> set ?st" by force
        from iter_graph_stack_serves [OF this, of h "insert b visited"] "3.prems"(4)
        show ?thesis by simp
      next
        case False
        have "emit_addrs h ?st = b # emit_addrs h stack"
          using Some by (simp add: emit_addrs_visits)
        with False ne have "a \<notin> set (emit_addrs h ?st)" by simp
        from "3.IH"(3) [OF Some \<open>b \<notin> visited\<close> a_out this "3.prems"(3,4)]
        show ?thesis .
      qed
      with b_out out show ?thesis by auto
    qed
  qed
qed

lemma iter_graph_root:
  assumes "node_addr h root = Some r"
  shows "([], root) \<in> set (iter_graph h root)"
proof -
  let ?st = "map (\<lambda>(key, value). Visit ([] @ [key]) value) (node_dict h r) @ [Emit [] root]"
  have "iter_graph h root = iter_graph_stack h (insert r {}) ?st"
    using assms by (simp add: iter_graph_def)
  moreover have "Emit [] root \<in> set ?st" by simp
  from iter_graph_stack_serves [OF this, of h "insert r {}"]
  have "([], root) \<in> set (iter_graph_stack h (insert r {}) ?st)" by simp
  ultimately show ?thesis by simp
qed

lemma iter_graph_sound:
  "(path, node) \<in> set (iter_graph h root) \<Longrightarrow> path_to h root path node"
  unfolding iter_graph_def
  by (rule iter_graph_stack_sound [of "[Visit [] root]" h root path node "{}"])
     (simp_all add: path_to.root)

lemma iter_graph_complete:
  assumes "path_to h root path node" and "node_addr h node = Some a"
  shows "a \<in> set (node_addrs h (iter_graph h root))"
  using assms
proof (induction arbitrary: a rule: path_to.induct)
  case root
  then have "([], root) \<in> set (iter_graph h root)" by (rule iter_graph_root)
  with root show ?case by (auto simp: node_addrs_mem)
next
  case (attr path node b key "value")
  from attr.IH [OF attr.hyps(2)]
  have b: "b \<in> set (node_addrs h (iter_graph_stack h {} [Visit [] root]))"
    by (simp add: iter_graph_def)
  have e: "b \<notin> set (emit_addrs h [Visit [] root])" by simp
  from iter_graph_stack_closed [OF b e attr.hyps(3) attr.prems]
  show ?case by (simp add: iter_graph_def)
qed

lemma iter_modules_mem:
  "(path, a) \<in> set (iter_modules h self)
     \<longleftrightarrow> (path, PRef a) \<in> set (iter_graph h (PRef self)) \<and> module_at h a"
  by (auto simp: iter_modules_def module_at_def split: val.splits)

lemma module_at_node_addr: "module_at h a \<Longrightarrow> node_addr h (PRef a) = Some a"
  by (auto simp: module_at_def is_Module_def node_addr_def split: option.splits cell.splits)

section \<open>\<^verbatim>\<open>iter_modules\<close> and \<^verbatim>\<open>iter_children\<close>: the claims\<close>

text \<open>
  Claim C5.  \<^verbatim>\<open>iter_modules\<close> yields exactly the modules that are reached from the root
  by reading attributes, each once and with a path of keys that leads from the root to
  it, and it yields the root module itself with the empty path.
\<close>

theorem iter_modules_reachable:
  "(\<forall>a. (\<exists>path. (path, a) \<in> set (iter_modules h self))
          \<longleftrightarrow> module_at h a \<and> (\<exists>path. path_to h (PRef self) path (PRef a)))
   \<and> (\<forall>(path, a) \<in> set (iter_modules h self). path_to h (PRef self) path (PRef a))
   \<and> distinct (map snd (iter_modules h self))
   \<and> (module_at h self \<longrightarrow> ([], self) \<in> set (iter_modules h self))"
proof (intro conjI allI impI)
  fix a
  show "(\<exists>path. (path, a) \<in> set (iter_modules h self))
          \<longleftrightarrow> module_at h a \<and> (\<exists>path. path_to h (PRef self) path (PRef a))"
  proof
    assume "\<exists>path. (path, a) \<in> set (iter_modules h self)"
    then obtain path where "(path, PRef a) \<in> set (iter_graph h (PRef self))" "module_at h a"
      by (auto simp: iter_modules_mem)
    then show "module_at h a \<and> (\<exists>path. path_to h (PRef self) path (PRef a))"
      using iter_graph_sound by blast
  next
    assume r: "module_at h a \<and> (\<exists>path. path_to h (PRef self) path (PRef a))"
    then obtain path where p: "path_to h (PRef self) path (PRef a)" by blast
    from r have n: "node_addr h (PRef a) = Some a" by (simp add: module_at_node_addr)
    from iter_graph_complete [OF p n] obtain q node where
      "(q, node) \<in> set (iter_graph h (PRef self))" "node_addr h node = Some a"
      by (auto simp: node_addrs_mem)
    moreover from this(2) have "node = PRef a" by (simp add: node_addr_Some)
    ultimately have "(q, a) \<in> set (iter_modules h self)"
      using r by (simp add: iter_modules_mem)
    then show "\<exists>path. (path, a) \<in> set (iter_modules h self)" by blast
  qed
next
  show "\<forall>(path, a) \<in> set (iter_modules h self). path_to h (PRef self) path (PRef a)"
    by (auto simp: iter_modules_mem intro: iter_graph_sound)
next
  show "distinct (map snd (iter_modules h self))" by (rule iter_modules_distinct)
next
  assume m: "module_at h self"
  then have "node_addr h (PRef self) = Some self" by (rule module_at_node_addr)
  then have "([], PRef self) \<in> set (iter_graph h (PRef self))" by (rule iter_graph_root)
  with m show "([], self) \<in> set (iter_modules h self)" by (simp add: iter_modules_mem)
qed

theorem iter_modules_reachable_witness:
  "([], 0) \<in> set (iter_modules block 0)
   \<and> path_to block (PRef 0) [''dropout''] (PRef 2)
   \<and> (\<exists>path. (path, 3) \<in> set (iter_modules block 0))"
proof -
  note t = iter_modules_reachable [of block 0]
  have m0: "module_at block 0" and m3: "module_at block 3" by code_simp+
  from t m0 have 1: "([], 0) \<in> set (iter_modules block 0)" by blast
  have "([''dropout''], 2) \<in> set (iter_modules block 0)" by code_simp
  with t have 2: "path_to block (PRef 0) [''dropout''] (PRef 2)" by blast
  have "path_to block (PRef 0) [] (PRef 0)" by (rule path_to.root)
  moreover have "node_addr block (PRef 0) = Some 0" by code_simp
  moreover have "(''batch_norm'', PRef 3) \<in> set (vars block 0)" by code_simp
  ultimately have "path_to block (PRef 0) ([] @ [''batch_norm'']) (PRef 3)" by (rule path_to.attr)
  with t m3 have 3: "\<exists>path. (path, 3) \<in> set (iter_modules block 0)" by blast
  from 1 2 3 show ?thesis by (intro conjI)
qed

lemma iter_children_mem:
  "(key, c) \<in> set (iter_children h m) \<longleftrightarrow> (key, PRef c) \<in> set (vars h m) \<and> module_at h c"
  by (auto simp: iter_children_def set_node_dict module_at_def split: val.splits)

lemma vars_nonempty_node: "(key, v) \<in> set (vars h m) \<Longrightarrow> node_addr h (PRef m) = Some m"
  by (cases "lookup h m") (auto simp: vars_def node_addr_def split: cell.splits)

lemma path_to_child:
  assumes "(key, v) \<in> set (vars h m)"
  shows "path_to h (PRef m) [key] v"
proof -
  have "path_to h (PRef m) [] (PRef m)" by (rule path_to.root)
  moreover have "node_addr h (PRef m) = Some m" using assms by (rule vars_nonempty_node)
  ultimately have "path_to h (PRef m) ([] @ [key]) v" using assms by (rule path_to.attr)
  then show ?thesis by simp
qed

text \<open>
  Claim C6, as amended.  \<^verbatim>\<open>iter_children\<close> yields exactly the pairs of a key and a
  module such that the module is stored in the node dictionary of \<open>m\<close> under the key: it
  does not go below the attributes of \<open>m\<close>.  When the objects below \<open>m\<close> form a tree, it
  does not yield \<open>m\<close> itself, and every pair \<open>(key, child)\<close> that it yields is yielded by
  \<^verbatim>\<open>iter_modules\<close> as \<open>((key,), child)\<close>.
\<close>

theorem iter_children_direct:
  "(\<forall>key c. (key, c) \<in> set (iter_children h m)
        \<longleftrightarrow> (key, PRef c) \<in> set (node_dict h m) \<and> module_at h c)
   \<and> (tree h m \<longrightarrow>
        (\<forall>(key, c) \<in> set (iter_children h m).
           c \<noteq> m \<and> ([key], c) \<in> set (iter_modules h m)))"
proof (intro conjI allI impI)
  fix key c
  show "(key, c) \<in> set (iter_children h m)
        \<longleftrightarrow> (key, PRef c) \<in> set (node_dict h m) \<and> module_at h c"
    by (simp add: iter_children_mem set_node_dict)
next
  assume t: "tree h m"
  show "\<forall>(key, c) \<in> set (iter_children h m). c \<noteq> m \<and> ([key], c) \<in> set (iter_modules h m)"
  proof (intro ballI, clarify)
    fix key c
    assume "(key, c) \<in> set (iter_children h m)"
    then have v: "(key, PRef c) \<in> set (vars h m)" and mc: "module_at h c"
      by (simp_all add: iter_children_mem)
    from v have p: "path_to h (PRef m) [key] (PRef c)" by (rule path_to_child)
    from mc have n: "node_addr h (PRef c) = Some c" by (rule module_at_node_addr)
    have "c \<noteq> m"
    proof
      assume "c = m"
      with p have "path_to h (PRef m) [key] (PRef m)" by simp
      moreover have "path_to h (PRef m) [] (PRef m)" by (rule path_to.root)
      moreover have "node_addr h (PRef m) = Some m" using n \<open>c = m\<close> by simp
      ultimately have "[key] = []" using t unfolding tree_def by blast
      then show False by simp
    qed
    moreover have "([key], c) \<in> set (iter_modules h m)"
    proof -
      from iter_graph_complete [OF p n] obtain q node where
        q: "(q, node) \<in> set (iter_graph h (PRef m))" "node_addr h node = Some c"
        by (auto simp: node_addrs_mem)
      from q(2) have node: "node = PRef c" by (simp add: node_addr_Some)
      from q(1) have "path_to h (PRef m) q node" by (rule iter_graph_sound)
      with node p n t have "q = [key]" unfolding tree_def by blast
      with q(1) node mc show ?thesis by (simp add: iter_modules_mem)
    qed
    ultimately show "c \<noteq> m \<and> ([key], c) \<in> set (iter_modules h m)" by (rule conjI)
  qed
qed

text \<open>The paths of the example with one child, which is a tree.\<close>

lemma pair_node_addr:
  "node_addr pair node = Some a \<longleftrightarrow> (node = PRef 0 \<and> a = 0) \<or> (node = PRef 1 \<and> a = 1)"
  by (cases node) (auto simp: node_addr_def lookup_def pair_def nth_Cons split: nat.splits)

lemma pair_vars:
  "(key, v) \<in> set (vars pair a) \<longleftrightarrow>
     (a = 0 \<and> key = ''linear'' \<and> v = PRef 1) \<or> (a = 1 \<and> key = ''bias'' \<and> v = PInt 0)"
  by (auto simp: vars_def lookup_def pair_def nth_Cons split: nat.splits)

lemma pair_paths:
  "path_to pair (PRef 0) p v \<Longrightarrow>
     (p = [] \<and> v = PRef 0) \<or> (p = [''linear''] \<and> v = PRef 1)
     \<or> (p = [''linear'', ''bias''] \<and> v = PInt 0)"
proof (induction rule: path_to.induct)
  case root
  then show ?case by simp
next
  case (attr path node a key "value")
  from attr.hyps(2) have "(node = PRef 0 \<and> a = 0) \<or> (node = PRef 1 \<and> a = 1)"
    by (simp add: pair_node_addr)
  then show ?case
  proof
    assume n: "node = PRef 0 \<and> a = 0"
    with attr.IH have "path = []" by simp
    moreover from n attr.hyps(3) have "key = ''linear'' \<and> value = PRef 1"
      by (simp add: pair_vars)
    ultimately show ?thesis by simp
  next
    assume n: "node = PRef 1 \<and> a = 1"
    with attr.IH have "path = [''linear'']" by simp
    moreover from n attr.hyps(3) have "key = ''bias'' \<and> value = PInt 0"
      by (simp add: pair_vars)
    ultimately show ?thesis by simp
  qed
qed

lemma pair_tree: "tree pair 0"
  unfolding tree_def
proof (intro allI impI, elim conjE)
  fix p q a
  assume "path_to pair (PRef 0) p (PRef a)" "path_to pair (PRef 0) q (PRef a)"
  from pair_paths [OF this(1)] pair_paths [OF this(2)]
  show "p = q" by auto
qed

theorem iter_children_direct_witness:
  "(''linear'', 1) \<in> set (iter_children pair 0)
   \<and> ([''linear''], 1) \<in> set (iter_modules pair 0)"
proof -
  note t = iter_children_direct [of pair 0]
  have "(''linear'', PRef 1) \<in> set (node_dict pair 0)" "module_at pair 1" by code_simp+
  with t have c: "(''linear'', 1) \<in> set (iter_children pair 0)" by blast
  from t pair_tree have "\<forall>(key, c) \<in> set (iter_children pair 0).
           c \<noteq> 0 \<and> ([key], c) \<in> set (iter_modules pair 0)"
    by blast
  with c have "([''linear''], 1) \<in> set (iter_modules pair 0)" by blast
  with c show ?thesis by (rule conjI)
qed

text \<open>
  Claim C6 as it was stated does not hold for every module: a module that is its own
  attribute, as after \<^verbatim>\<open>self.me = self\<close>, is yielded by its own \<^verbatim>\<open>iter_children\<close>,
  and \<^verbatim>\<open>iter_modules\<close> yields it once only, with the empty path.
\<close>

theorem iter_children_yields_self:
  "module_at self_ref 0 \<and> iter_children self_ref 0 = [(''me'', 0)]
   \<and> iter_modules self_ref 0 = [([], 0)]"
  by code_simp

section \<open>The pytree functions: the claim\<close>

lemma dict_set_new: "k \<notin> fst ` set d \<Longrightarrow> dict_set d k v = d @ [(k, v)]"
  by (induction d) auto

lemma State_foldl:
  "distinct (map fst (d @ pairs)) \<Longrightarrow>
     foldl (\<lambda>d (key, value). dict_set d key value) d pairs = d @ pairs"
proof (induction pairs arbitrary: d)
  case Nil
  then show ?case by simp
next
  case (Cons kv pairs)
  obtain k v where kv: "kv = (k, v)" by (cases kv)
  from Cons.prems kv have "k \<notin> fst ` set d" by auto
  then have "dict_set d k v = d @ [(k, v)]" by (rule dict_set_new)
  moreover have "distinct (map fst ((d @ [(k, v)]) @ pairs))" using Cons.prems kv by simp
  ultimately show ?case using Cons.IH [of "d @ [(k, v)]"] kv by simp
qed

lemma State_distinct: "distinct (map fst pairs) \<Longrightarrow> State pairs = pairs"
  using State_foldl [of "[]" pairs] by (simp add: State_def)

lemma map_of_filter_key: "map_of xs k = map_of (filter (\<lambda>y. fst y = k) xs) k"
  by (induction xs) auto

lemma map_of_sort_key: "map_of (sort_key fst xs) = map_of xs"
proof
  fix k
  have "map_of (sort_key fst xs) k = map_of (filter (\<lambda>y. fst y = k) (sort_key fst xs)) k"
    by (rule map_of_filter_key)
  also have "\<dots> = map_of (filter (\<lambda>y. fst y = k) xs) k"
    by (simp only: sort_key_stable)
  also have "\<dots> = map_of xs k"
    by (rule map_of_filter_key [symmetric])
  finally show "map_of (sort_key fst xs) k = map_of xs k" .
qed

lemma distinct_map_fst_insort_key:
  "distinct (map fst (insort_key fst x xs)) \<longleftrightarrow> fst x \<notin> fst ` set xs \<and> distinct (map fst xs)"
  by (induction xs) (auto simp: set_insort_key)

lemma distinct_map_fst_sort_key:
  "distinct (map fst (sort_key fst xs)) = distinct (map fst xs)"
  by (induction xs) (auto simp: distinct_map_fst_insort_key)

text \<open>
  Claim C7.  \<^verbatim>\<open>_module_flatten\<close> splits the module with \<^verbatim>\<open>graph.split\<close> and returns
  the structural description unchanged, the keys of the mapping in sorted order, and as
  children the leaves in the order of their keys (each with its \<^verbatim>\<open>DictKey\<close> when
  \<^verbatim>\<open>with_keys\<close> is set).  \<^verbatim>\<open>_module_unflatten\<close>, given the auxiliary data and
  the leaves of these children, pairs every key with its own leaf
  again and calls \<^verbatim>\<open>graph.merge\<close> on the structural description and a state with
  the mapping of the module.  So, \<^verbatim>\<open>graph.split\<close> and \<^verbatim>\<open>graph.merge\<close> being such
  that splitting what is merged from the module's structural description and mapping
  (its items in any order) gives them back, the rebuilt module splits into the same
  structural description and the same mapping as the module.
\<close>

theorem module_flatten_unflatten:
  assumes "split m = (graphdef, state)"
    and "distinct (map fst state)"
    and "\<forall>s. distinct (map fst s) \<and> map_of s = map_of state \<longrightarrow>
           (\<exists>s'. split (merge graphdef s) = (graphdef, s') \<and> map_of s' = map_of state)"
  shows "\<exists>children keys.
           module_flatten split m with_keys = (children, (keys, graphdef))
         \<and> sorted keys \<and> distinct keys \<and> set keys = fst ` set state
         \<and> zip keys (leaves children) = sort_key fst state
         \<and> map_of (zip keys (leaves children)) = map_of state
         \<and> module_unflatten merge (keys, graphdef) (leaves children)
               = merge graphdef (sort_key fst state)
         \<and> (\<exists>state'. split (module_unflatten merge (keys, graphdef) (leaves children))
                           = (graphdef, state')
                      \<and> map_of state' = map_of state)"
proof -
  define key_values where "key_values = sort_key fst state"
  define keys where "keys = map fst key_values"
  define children where "children =
     (if with_keys then WithKeys (map (\<lambda>(key, value). (DictKey key, value)) key_values)
      else Leaves (map snd key_values))"
  have fl: "module_flatten split m with_keys = (children, (keys, graphdef))"
    using assms(1) by (simp add: module_flatten_def Let_def key_values_def keys_def children_def)
  have lv: "leaves children = map snd key_values"
    by (simp add: leaves_def children_def comp_def case_prod_unfold)
  have srt: "sorted keys"
    unfolding keys_def key_values_def by (rule sorted_sort_key)
  have dst: "distinct keys"
    unfolding keys_def key_values_def using assms(2) by (simp add: distinct_map_fst_sort_key)
  have st: "set keys = fst ` set state"
    by (simp add: keys_def key_values_def)
  have zp: "zip keys (leaves children) = sort_key fst state"
    unfolding lv keys_def by (simp add: zip_map_fst_snd key_values_def)
  have mp: "map_of (zip keys (leaves children)) = map_of state"
    unfolding zp by (rule map_of_sort_key)
  have "distinct (map fst (zip keys (leaves children)))"
    unfolding zp using assms(2) by (simp add: distinct_map_fst_sort_key)
  then have "State (zip keys (leaves children)) = sort_key fst state"
    using zp by (simp add: State_distinct)
  then have un: "module_unflatten merge (keys, graphdef) (leaves children)
      = merge graphdef (sort_key fst state)"
    by (simp add: module_unflatten_def)
  have "distinct (map fst (sort_key fst state)) \<and> map_of (sort_key fst state) = map_of state"
    using assms(2) by (simp add: distinct_map_fst_sort_key map_of_sort_key)
  with assms(3) have "\<exists>s'. split (merge graphdef (sort_key fst state)) = (graphdef, s')
      \<and> map_of s' = map_of state"
    by blast
  then have rt: "\<exists>state'. split (module_unflatten merge (keys, graphdef) (leaves children))
                           = (graphdef, state')
                      \<and> map_of state' = map_of state"
    by (simp only: un)
  from fl srt dst st zp mp un rt show ?thesis by blast
qed

theorem module_flatten_unflatten_witness:
  "module_flatten pair_split (''Linear'', [(''kernel'', 2), (''bias'', 1)]) True
     = (WithKeys [(DictKey ''bias'', 1), (DictKey ''kernel'', 2)], ([''bias'', ''kernel''], ''Linear''))
   \<and> (\<exists>state'. pair_split (module_unflatten pair_merge ([''bias'', ''kernel''], ''Linear'')
                          (leaves (WithKeys [(DictKey ''bias'', 1), (DictKey ''kernel'', 2)])))
                     = (''Linear'', state')
                \<and> map_of state' = map_of [(''kernel'', 2), (''bias'', 1)])"
proof -
  let ?m = "(''Linear'', [(''kernel'', 2::int), (''bias'', 1)])"
  have sp: "pair_split ?m = (''Linear'', [(''kernel'', 2), (''bias'', 1)])"
    by (simp add: pair_split_def)
  have d: "distinct (map fst [(''kernel'', 2::int), (''bias'', 1)])" by simp
  have law: "\<forall>s. distinct (map fst s) \<and> map_of s = map_of [(''kernel'', 2::int), (''bias'', 1)] \<longrightarrow>
           (\<exists>s'. pair_split (pair_merge ''Linear'' s) = (''Linear'', s')
              \<and> map_of s' = map_of [(''kernel'', 2), (''bias'', 1)])"
    by (simp add: pair_split_def pair_merge_def)
  from module_flatten_unflatten [where merge = pair_merge and with_keys = True, OF sp d law]
  obtain children keys where
    fl: "module_flatten pair_split ?m True = (children, (keys, ''Linear''))"
    and rt: "\<exists>state'. pair_split (module_unflatten pair_merge (keys, ''Linear'') (leaves children))
                           = (''Linear'', state')
                      \<and> map_of state' = map_of [(''kernel'', 2), (''bias'', 1)]"
    by blast
  have ev: "module_flatten pair_split ?m True
     = (WithKeys [(DictKey ''bias'', 1), (DictKey ''kernel'', 2)], ([''bias'', ''kernel''], ''Linear''))"
    by code_simp
  with fl have "children = WithKeys [(DictKey ''bias'', 1), (DictKey ''kernel'', 2)]"
    "keys = [''bias'', ''kernel'']"
    by simp_all
  with rt ev show ?thesis by simp
qed

end
